theory Spec2Isabelle
  imports Main "HOL-Library.Multiset"
begin

section \<open>Data model of \<open>dagger_rocker/core.py\<close>\<close>

text \<open>
  The option set \<open>args: Dict\<close> maps option names to Python values. Only the shapes that
  the argument parser produces are needed: \<open>None\<close>, booleans, strings and lists of
  strings. \<open>truthy\<close> is Python's \<open>bool(v)\<close>; \<open>args_get\<close> is \<open>args.get(k)\<close>, which
  yields \<open>None\<close> for a missing key.
\<close>

datatype pyval = PyNone | PyBool bool | PyStr string | PyList "string list"

type_synonym args = "string \<rightharpoonup> pyval"

fun truthy :: "pyval \<Rightarrow> bool" where
  "truthy PyNone = False"
| "truthy (PyBool b) = b"
| "truthy (PyStr s) = (s \<noteq> [])"
| "truthy (PyList l) = (l \<noteq> [])"

definition args_get :: "args \<Rightarrow> string \<Rightarrow> pyval" where
  "args_get a k = (case a k of None \<Rightarrow> PyNone | Some v \<Rightarrow> v)"

text \<open>
  Exceptions are values. \<open>ValueError\<close> is what the topological sort raises,
  \<open>RecursionError\<close> is what the interpreter raises when a call would nest deeper
  than its recursion limit allows, \<open>KeyError\<close> is a failed subscript
  \<open>args['image']\<close>, and \<open>Raised\<close> stands for any exception coming out of an
  extension hook or of the container backend.
\<close>

datatype error =
  ValueError string | RecursionError | KeyError string | TypeError | Raised string

text \<open>
  \<open>DaggerRockerExtension\<close>: the abstract base class becomes a record of its hooks, one
  field per method, so that a subclass is a record value. The two \<open>Set[str]\<close> results are
  lists: the list is the order in which Python iterates over the set, and every theorem
  below holds for every such order. \<open>validate_environment\<close> returns the exception it
  raises, if any; \<open>setup_container\<close> returns the new container or the exception.
  The container type \<open>'c\<close> is opaque.
\<close>

record 'c extension =
  get_name :: string
  check_args_for_activation :: "args \<Rightarrow> bool"
  get_dependencies :: "string list"
  get_load_order_hints :: "string list"
  validate_environment :: "args \<Rightarrow> error option"
  setup_container :: "'c \<Rightarrow> args \<Rightarrow> error + 'c"

text \<open>The default activation hook of the base class: \<open>bool(args.get(self.get_name()))\<close>.\<close>

definition default_activation :: "string \<Rightarrow> args \<Rightarrow> bool" where
  "default_activation nm a = truthy (args_get a nm)"

text \<open>\<open>BasicExtension\<close>: always active, no dependencies, no hints, hooks that do nothing.\<close>

definition BasicExtension :: "'c extension" where
  "BasicExtension =
     \<lparr> get_name = ''basic'',
       check_args_for_activation = (\<lambda>a. True),
       get_dependencies = [],
       get_load_order_hints = [],
       validate_environment = (\<lambda>a. None),
       setup_container = (\<lambda>c a. Inr c) \<rparr>"

text \<open>
  \<open>MockExtension\<close> of \<open>test/test_dagger_rocker_core.py\<close>: a name, a dependency set
  and a hint set; the inherited activation hook; hooks that succeed and change nothing.
\<close>

definition MockExtension :: "string \<Rightarrow> string list \<Rightarrow> string list \<Rightarrow> 'c extension" where
  "MockExtension nm dependencies load_order_hints =
     \<lparr> get_name = nm,
       check_args_for_activation = default_activation nm,
       get_dependencies = dependencies,
       get_load_order_hints = load_order_hints,
       validate_environment = (\<lambda>a. None),
       setup_container = (\<lambda>c a. Inr c) \<rparr>"

subsection \<open>Dictionaries\<close>

text \<open>
  A Python \<open>dict\<close> keeps its keys in insertion order, and the code iterates over
  dictionaries, so a dictionary is an association list. \<open>dict_set d k v\<close> is
  \<open>d[k] = v\<close>: an existing key keeps its position and gets the new value, a new key goes
  to the end. \<open>map_of d k\<close> is the lookup, \<open>keys d\<close> the key set (\<open>k in d\<close>).
\<close>

type_synonym 'c ext_dict = "(string \<times> 'c extension) list"

fun dict_set :: "('k \<times> 'v) list \<Rightarrow> 'k \<Rightarrow> 'v \<Rightarrow> ('k \<times> 'v) list" where
  "dict_set [] k v = [(k, v)]"
| "dict_set ((k', v') # d) k v =
     (if k' = k then (k, v) # d else (k', v') # dict_set d k v)"

definition keys :: "('k \<times> 'v) list \<Rightarrow> 'k set" where
  "keys d = set (map fst d)"

subsection \<open>Registry\<close>

text \<open>\<open>DaggerRockerCore.register_extension\<close>: \<open>self.extensions[extension.get_name()] = extension\<close>.\<close>

definition register_extension :: "'c ext_dict \<Rightarrow> 'c extension \<Rightarrow> 'c ext_dict" where
  "register_extension extensions extension =
     dict_set extensions (get_name extension) extension"

text \<open>The registry that the entry points build: register a list of extensions, one by one.\<close>

definition register_all :: "'c extension list \<Rightarrow> 'c ext_dict" where
  "register_all exts = foldl register_extension [] exts"

subsection \<open>Activation resolver\<close>

text \<open>
  First loop of \<open>get_active_extensions\<close>: the extensions whose activation hook accepts
  the options, in registry order.
\<close>

fun seed_active :: "'c ext_dict \<Rightarrow> args \<Rightarrow> 'c ext_dict \<Rightarrow> 'c ext_dict" where
  "seed_active [] a active = active"
| "seed_active ((nm, ext) # rest) a active =
     seed_active rest a
       (if check_args_for_activation ext a then dict_set active nm ext else active)"

text \<open>
  The innermost loop, over the dependency names of one extension. The state is the
  dictionary \<open>active\<close> and the flag \<open>changed\<close>. A name is added when it is not yet
  active and is registered; any other name is skipped.
\<close>

fun add_dependencies ::
  "'c ext_dict \<Rightarrow> string list \<Rightarrow> 'c ext_dict \<times> bool \<Rightarrow> 'c ext_dict \<times> bool" where
  "add_dependencies extensions [] (active, changed) = (active, changed)"
| "add_dependencies extensions (dep_name # deps) (active, changed) =
     (if map_of active dep_name = None then
        (case map_of extensions dep_name of
           Some ext \<Rightarrow> add_dependencies extensions deps (dict_set active dep_name ext, True)
         | None \<Rightarrow> add_dependencies extensions deps (active, changed))
      else add_dependencies extensions deps (active, changed))"

text \<open>The loop over \<open>list(active.items())\<close>, a snapshot taken before the scan.\<close>

fun scan_items ::
  "'c ext_dict \<Rightarrow> 'c ext_dict \<Rightarrow> 'c ext_dict \<times> bool \<Rightarrow> 'c ext_dict \<times> bool" where
  "scan_items extensions [] st = st"
| "scan_items extensions ((nm, ext) # items) st =
     scan_items extensions items (add_dependencies extensions (get_dependencies ext) st)"

lemma keys_dict_set: "keys (dict_set d k v) = insert k (keys d)"
  by (induction d k v rule: dict_set.induct) (simp_all add: keys_def insert_commute)

lemma map_of_dict_set: "map_of (dict_set d k v) = (map_of d)(k \<mapsto> v)"
  by (induction d) (auto simp: fun_eq_iff)

lemma map_of_None_iff_keys: "map_of d k = None \<longleftrightarrow> k \<notin> keys d"
  by (simp add: keys_def map_of_eq_None_iff)

lemma map_of_Some_keys: "map_of d k = Some v \<Longrightarrow> k \<in> keys d"
  by (auto simp: keys_def dest: map_of_SomeD intro: rev_image_eqI)

lemma add_dependencies_grows:
  "add_dependencies extensions deps (active, changed) = (active', changed') \<Longrightarrow>
     keys active \<subseteq> keys active' \<and> keys active' \<subseteq> keys active \<union> keys extensions \<and>
     (changed \<longrightarrow> changed') \<and>
     (changed' \<and> \<not> changed \<longrightarrow> keys active \<noteq> keys active')"
proof (induction deps arbitrary: active changed)
  case Nil
  then show ?case by simp
next
  case (Cons dep_name deps)
  show ?case
  proof (cases "map_of active dep_name = None")
    case False
    with Cons.prems
    have "add_dependencies extensions deps (active, changed) = (active', changed')"
      by auto
    from Cons.IH [OF this] show ?thesis .
  next
    case inactive: True
    show ?thesis
    proof (cases "map_of extensions dep_name")
      case None
      with inactive Cons.prems
      have "add_dependencies extensions deps (active, changed) = (active', changed')"
        by simp
      from Cons.IH [OF this] show ?thesis .
    next
      case (Some ext)
      with inactive Cons.prems
      have "add_dependencies extensions deps (dict_set active dep_name ext, True) =
              (active', changed')"
        by simp
      from Cons.IH [OF this] inactive Some show ?thesis
        by (auto simp: keys_dict_set map_of_None_iff_keys dest: map_of_Some_keys)
    qed
  qed
qed

lemma scan_items_grows:
  "scan_items extensions items (active, changed) = (active', changed') \<Longrightarrow>
     keys active \<subseteq> keys active' \<and> keys active' \<subseteq> keys active \<union> keys extensions \<and>
     (changed \<longrightarrow> changed') \<and>
     (changed' \<and> \<not> changed \<longrightarrow> keys active \<noteq> keys active')"
proof (induction items arbitrary: active changed)
  case Nil
  then show ?case by simp
next
  case (Cons item items)
  obtain nm ext where item: "item = (nm, ext)" by (cases item)
  obtain a1 c1 where step:
    "add_dependencies extensions (get_dependencies ext) (active, changed) = (a1, c1)"
    by (cases "add_dependencies extensions (get_dependencies ext) (active, changed)")
  from Cons.prems item step
  have rest: "scan_items extensions items (a1, c1) = (active', changed')" by simp
  from add_dependencies_grows [OF step] Cons.IH [OF rest] show ?case
    by blast
qed

lemma scan_items_measure:
  assumes "scan_items extensions active (active, False) = (active', True)"
  shows "card (keys extensions - keys active') < card (keys extensions - keys active)"
proof -
  from scan_items_grows [OF assms]
  have sub: "keys active \<subseteq> keys active'"
    and bound: "keys active' \<subseteq> keys active \<union> keys extensions"
    and neq: "keys active \<noteq> keys active'"
    by auto
  have "keys extensions - keys active' \<subset> keys extensions - keys active"
    using sub bound neq by blast
  moreover have "finite (keys extensions - keys active)"
    by (simp add: keys_def)
  ultimately show ?thesis
    by (simp add: psubset_card_mono)
qed

text \<open>
  The \<open>while changed\<close> loop. It runs the scan at least once and repeats it as long as
  the scan added a name. It terminates because every repetition adds a registered name
  that was not active.
\<close>

function expand_dependencies :: "'c ext_dict \<Rightarrow> 'c ext_dict \<Rightarrow> 'c ext_dict" where
  "expand_dependencies extensions active =
     (case scan_items extensions active (active, False) of
        (active', changed) \<Rightarrow>
          if changed then expand_dependencies extensions active' else active')"
  by pat_completeness auto

termination
  by (relation "measure (\<lambda>(extensions, active). card (keys extensions - keys active))")
     (auto intro: scan_items_measure)

declare expand_dependencies.simps [simp del]

text \<open>The dictionary \<open>active\<close> as it stands when \<open>get_active_extensions\<close> calls the sort.\<close>

definition active_dict :: "'c ext_dict \<Rightarrow> args \<Rightarrow> 'c ext_dict" where
  "active_dict extensions a = expand_dependencies extensions (seed_active extensions a [])"

subsection \<open>Scheduler\<close>

text \<open>
  \<open>_sort_extensions\<close> and its nested \<open>topological_sort\<close>. The three variables that the
  closure \<open>visit\<close> shares are the state: the sets \<open>visited\<close> and \<open>temp_visited\<close> and the
  list \<open>result\<close>.
\<close>

record 'c sort_state =
  visited :: "string set"
  temp_visited :: "string set"
  result :: "'c extension list"

text \<open>
  \<open>visit\<close> calls itself from inside the loop over the hints, on the state that the
  previous call left: one Python frame for every hint that is followed. The interpreter
  allows only so many nested calls. \<open>depth\<close> is the number of nested calls it still
  allows at the point where \<open>visit\<close> is called: the call of \<open>visit\<close> needs one of them,
  and so does the call \<open>ext.get_load_order_hints()\<close> inside it; with none left the call
  raises \<open>RecursionError\<close>. The calls on sets, lists and dictionaries and the
  construction of the \<open>ValueError\<close> are built in and are taken to need no frame. An
  exception is \<open>Inl\<close> and ends every enclosing loop; nothing catches it inside the
  sort.
\<close>

fun visit ::
    "nat \<Rightarrow> 'c ext_dict \<Rightarrow> string \<Rightarrow> 'c sort_state \<Rightarrow> error + 'c sort_state"
  and visit_hints ::
    "nat \<Rightarrow> 'c ext_dict \<Rightarrow> string list \<Rightarrow> 'c sort_state \<Rightarrow> error + 'c sort_state"
where
  "visit 0 items nm st = Inl RecursionError"
| "visit (Suc n) items nm st =
     (if nm \<in> temp_visited st then
        Inl (ValueError (''Circular dependency detected involving '' @ nm))
      else if nm \<in> visited st then Inr st
      else
        (case (case map_of items nm of
                 Some ext \<Rightarrow>
                   if n = 0 then Inl RecursionError
                   else
                     visit_hints n items (get_load_order_hints ext)
                       (st\<lparr>temp_visited := insert nm (temp_visited st)\<rparr>)
               | None \<Rightarrow> Inr (st\<lparr>temp_visited := insert nm (temp_visited st)\<rparr>)) of
           Inl e \<Rightarrow> Inl e
         | Inr st1 \<Rightarrow>
             Inr
               (let st2 = st1\<lparr>temp_visited := temp_visited st1 - {nm},
                              visited := insert nm (visited st1)\<rparr>
                in case map_of items nm of
                     Some ext \<Rightarrow> st2\<lparr>result := result st2 @ [ext]\<rparr>
                   | None \<Rightarrow> st2)))"
| "visit_hints n items [] st = Inr st"
| "visit_hints n items (dep # deps) st =
     (if map_of items dep \<noteq> None then
        (case visit n items dep st of
           Inl e \<Rightarrow> Inl e
         | Inr st1 \<Rightarrow> visit_hints n items deps st1)
      else visit_hints n items deps st)"

text \<open>The outer loop \<open>for name in items: visit(name)\<close>.\<close>

fun visit_all ::
  "nat \<Rightarrow> 'c ext_dict \<Rightarrow> string list \<Rightarrow> 'c sort_state \<Rightarrow> error + 'c sort_state" where
  "visit_all n items [] st = Inr st"
| "visit_all n items (nm # names) st =
     (case visit n items nm st of
        Inl e \<Rightarrow> Inl e
      | Inr st1 \<Rightarrow> visit_all n items names st1)"

definition topological_sort :: "nat \<Rightarrow> 'c ext_dict \<Rightarrow> error + 'c extension list" where
  "topological_sort depth items =
     (case visit_all depth items (map fst items)
             \<lparr>visited = {}, temp_visited = {}, result = []\<rparr> of
        Inl e \<Rightarrow> Inl e
      | Inr st \<Rightarrow> Inr (result st))"

text \<open>
  \<open>_sort_extensions(extensions, args)\<close>, called with \<open>depth\<close> nested calls left for
  \<open>visit\<close>.
\<close>

definition sort_extensions ::
  "nat \<Rightarrow> 'c ext_dict \<Rightarrow> args \<Rightarrow> error + 'c extension list" where
  "sort_extensions depth extensions a = topological_sort depth extensions"

text \<open>\<open>get_active_extensions(args)\<close>: resolve, then sort.\<close>

definition get_active_extensions ::
  "nat \<Rightarrow> 'c ext_dict \<Rightarrow> args \<Rightarrow> error + 'c extension list" where
  "get_active_extensions depth extensions a =
     sort_extensions depth (active_dict extensions a) a"

section \<open>The pipeline runner and the entry points\<close>

text \<open>
  What the program does to the outside is recorded as a trace of events: the hooks of the
  extensions that were called, the calls into the container backend (the \<open>dagger\<close>
  client), and the lines printed. A printed line is kept as the statement that printed it,
  with the values it interpolates.
\<close>

datatype line =
    ActiveExtensionsLine "string list"
  | ErrorDeterminingLine error
  | ErrorValidatingLine string error
  | DryRunLine
  | ImageLine pyval
  | CommandLine string
  | OrderHeaderLine
  | OrderItemLine nat string
  | ResultLine string
  | ErrorRunningLine error

datatype event =
    Validate string
  | Connect
  | Disconnect
  | FromImage pyval
  | SetupContainer string
  | WithExec pyval
  | Stdout
  | Sync
  | Print line

text \<open>
  The container backend is outside the repository; it is a parameter. Opening the
  connection may raise; \<open>from_image\<close> (the call \<open>from_\<close>) and \<open>with_exec\<close> build a container; \<open>stdout\<close> and
  \<open>sync\<close> run it. Each of them may raise.
\<close>

record 'c backend =
  connect :: "error option"
  from_image :: "pyval \<Rightarrow> error + 'c"
  with_exec :: "'c \<Rightarrow> pyval \<Rightarrow> error + 'c"
  stdout :: "'c \<Rightarrow> error + string"
  sync :: "'c \<Rightarrow> error + 'c"

text \<open>
  A step yields the events it caused and either the exception it raised or its value.
  \<open>then_do\<close> is sequencing: the second step runs only if the first did not raise.
\<close>

type_synonym 'a step = "event list \<times> (error + 'a)"

definition then_do :: "'a step \<Rightarrow> ('a \<Rightarrow> 'b step) \<Rightarrow> 'b step" where
  "then_do m f =
     (case m of
        (tr, Inl e) \<Rightarrow> (tr, Inl e)
      | (tr, Inr x) \<Rightarrow> (case f x of (tr', r) \<Rightarrow> (tr @ tr', r)))"

text \<open>The loop \<open>for ext in self.active_extensions: ext.validate_environment(args)\<close>.\<close>

fun validate_all :: "'c extension list \<Rightarrow> args \<Rightarrow> unit step" where
  "validate_all [] a = ([], Inr ())"
| "validate_all (ext # exts) a =
     (case validate_environment ext a of
        Some e \<Rightarrow> ([Validate (get_name ext)], Inl e)
      | None \<Rightarrow> then_do ([Validate (get_name ext)], Inr ()) (\<lambda>_. validate_all exts a))"

text \<open>
  The loop \<open>for ext in self.active_extensions: container = await
  ext.setup_container(container, args)\<close>.
\<close>

fun apply_extensions :: "'c extension list \<Rightarrow> 'c \<Rightarrow> args \<Rightarrow> 'c step" where
  "apply_extensions [] container a = ([], Inr container)"
| "apply_extensions (ext # exts) container a =
     then_do ([SetupContainer (get_name ext)], setup_container ext container a)
       (\<lambda>container. apply_extensions exts container a)"

text \<open>
  \<open>async with dagger.Connection(...) as client\<close>: the body runs if the connection opens,
  and the connection is closed when the body ends, also by an exception.
\<close>

definition with_connection :: "'c backend \<Rightarrow> 'a step \<Rightarrow> 'a step" where
  "with_connection B body =
     (case connect B of
        Some e \<Rightarrow> ([Connect], Inl e)
      | None \<Rightarrow> (case body of (tr, r) \<Rightarrow> (Connect # tr @ [Disconnect], r)))"

text \<open>\<open>client.container().from_(args['image'])\<close>; the subscript raises on a missing key.\<close>

definition base_container :: "'c backend \<Rightarrow> args \<Rightarrow> 'c step" where
  "base_container B a =
     (case a ''image'' of
        None \<Rightarrow> ([], Inl (KeyError ''image''))
      | Some img \<Rightarrow> ([FromImage img], from_image B img))"

text \<open>The two default commands, of \<open>run\<close> and of \<open>build_and_run\<close>.\<close>

definition echo_no_command :: pyval where
  "echo_no_command =
     PyList [''/bin/bash'', ''-c'', ''echo 'No command specified'' @ [CHR 0x27]]"

definition bash_shell :: pyval where
  "bash_shell = PyList [''/bin/bash'']"

text \<open>
  \<open>await container.with_exec(argv).sync()\<close> and
  \<open>await container.with_exec(argv).stdout()\<close>.
\<close>

definition exec_sync :: "'c backend \<Rightarrow> 'c \<Rightarrow> pyval \<Rightarrow> 'c step" where
  "exec_sync B container argv =
     then_do ([WithExec argv], with_exec B container argv) (\<lambda>c. ([Sync], sync B c))"

definition exec_stdout :: "'c backend \<Rightarrow> 'c \<Rightarrow> pyval \<Rightarrow> string step" where
  "exec_stdout B container argv =
     then_do ([WithExec argv], with_exec B container argv) (\<lambda>c. ([Stdout], stdout B c))"

text \<open>
  \<open>DaggerRockerCore.build_and_run\<close>, on the list \<open>self.active_extensions\<close> that the
  caller has stored.
\<close>

definition build_and_run :: "'c backend \<Rightarrow> 'c extension list \<Rightarrow> args \<Rightarrow> 'c step" where
  "build_and_run B active_extensions a =
     with_connection B
       (then_do (base_container B a) (\<lambda>container.
        then_do (apply_extensions active_extensions container a) (\<lambda>container.
          if truthy (args_get a ''command'') then
            exec_sync B container (args_get a ''command'')
          else
            exec_sync B container bash_shell)))"

text \<open>The \<open>async with\<close> block of \<open>DaggerRockerCore.run\<close>.\<close>

definition run_container :: "'c backend \<Rightarrow> 'c extension list \<Rightarrow> args \<Rightarrow> string step" where
  "run_container B active_extensions a =
     with_connection B
       (then_do (base_container B a) (\<lambda>container.
        then_do (apply_extensions active_extensions container a) (\<lambda>container.
          if truthy (args_get a ''command'') then
            exec_stdout B container (args_get a ''command'')
          else
            exec_stdout B container echo_no_command)))"

text \<open>
  \<open>DaggerRockerCore.run\<close>: resolve and sort, validate, then the block above. An
  exception of the sort is raised before any event.
\<close>

definition run :: "'c backend \<Rightarrow> nat \<Rightarrow> 'c ext_dict \<Rightarrow> args \<Rightarrow> string step" where
  "run B depth extensions a =
     (case get_active_extensions depth extensions a of
        Inl e \<Rightarrow> ([], Inl e)
      | Inr active_extensions \<Rightarrow>
          then_do (validate_all active_extensions a)
            (\<lambda>_. run_container B active_extensions a))"

text \<open>\<open>' '.join(v)\<close> on a list of strings or on a string; anything else is a \<open>TypeError\<close>.\<close>

fun join_spaces :: "string list \<Rightarrow> string" where
  "join_spaces [] = []"
| "join_spaces [x] = x"
| "join_spaces (x # y # rest) = x @ '' '' @ join_spaces (y # rest)"

fun py_join :: "pyval \<Rightarrow> error + string" where
  "py_join (PyList l) = Inr (join_spaces l)"
| "py_join (PyStr s) = Inr (join_spaces (map (\<lambda>c. [c]) s))"
| "py_join v = Inl TypeError"

text \<open>
  The validation loop of the entry points \<open>cli.py\<close> and \<open>main.py\<close>: an exception is
  caught, reported, and ends the program with exit code \<open>1\<close>. The result is the exit
  code, if the loop ended the program.
\<close>

fun validate_or_exit :: "'c extension list \<Rightarrow> args \<Rightarrow> event list \<times> int option" where
  "validate_or_exit [] a = ([], None)"
| "validate_or_exit (ext # exts) a =
     (case validate_environment ext a of
        Some e \<Rightarrow>
          ([Validate (get_name ext), Print (ErrorValidatingLine (get_name ext) e)], Some 1)
      | None \<Rightarrow>
          (case validate_or_exit exts a of (tr, r) \<Rightarrow> (Validate (get_name ext) # tr, r)))"

text \<open>The lines \<open>print(f"Image: ...")\<close> and \<open>if args_dict.get('command'): print(...)\<close>.\<close>

definition print_image_and_command :: "args \<Rightarrow> unit step" where
  "print_image_and_command a =
     (case a ''image'' of
        None \<Rightarrow> ([], Inl (KeyError ''image''))
      | Some img \<Rightarrow>
          then_do ([Print (ImageLine img)], Inr ()) (\<lambda>_.
            if truthy (args_get a ''command'') then
              (case py_join (args_get a ''command'') of
                 Inl e \<Rightarrow> ([], Inl e)
               | Inr s \<Rightarrow> ([Print (CommandLine s)], Inr ()))
            else ([], Inr ())))"

text \<open>\<open>for i, ext in enumerate(core.active_extensions, 1): print(f"  {i}. ...")\<close>.\<close>

fun print_order :: "nat \<Rightarrow> 'c extension list \<Rightarrow> event list" where
  "print_order i [] = []"
| "print_order i (ext # exts) = Print (OrderItemLine i (get_name ext)) # print_order (Suc i) exts"

text \<open>
  The dry-run block of \<open>cli.py\<close>: the banner, the image, the command if there is one,
  and the numbered list of the active extensions; exit code \<open>0\<close>.
\<close>

definition cli_dry_run :: "'c extension list \<Rightarrow> args \<Rightarrow> int step" where
  "cli_dry_run active_extensions a =
     then_do ([Print DryRunLine], Inr ()) (\<lambda>_.
     then_do (print_image_and_command a) (\<lambda>_.
       (Print OrderHeaderLine # print_order 1 active_extensions, Inr 0)))"

text \<open>The dry-run block of \<open>main.py\<close>: the banner, the image, the command if there is one.\<close>

definition main_py_dry_run :: "args \<Rightarrow> int step" where
  "main_py_dry_run a =
     then_do ([Print DryRunLine], Inr ()) (\<lambda>_.
     then_do (print_image_and_command a) (\<lambda>_. ([], Inr 0)))"

text \<open>
  \<open>main\<close> of \<open>cli.py\<close>, from the parsed options on; \<open>exts\<close> are the extensions it
  registers, and \<open>depth\<close> is the number of nested calls left for a sort that \<open>main\<close>
  starts (the sort inside \<open>core.run\<close> starts one frame deeper). The result is the exit
  code, or the exception that left \<open>main\<close>. A failure of the resolution is caught and
  reported; so is a failure of \<open>core.run\<close>.
\<close>

definition cli_main :: "'c backend \<Rightarrow> nat \<Rightarrow> 'c extension list \<Rightarrow> args \<Rightarrow> int step" where
  "cli_main B depth exts a =
     (let extensions = register_all exts in
      case get_active_extensions depth extensions a of
        Inl e \<Rightarrow> ([Print (ErrorDeterminingLine e)], Inr 1)
      | Inr active_extensions \<Rightarrow>
          (let shown = Print (ActiveExtensionsLine (map get_name active_extensions)) in
           case validate_or_exit active_extensions a of
             (tr, Some code) \<Rightarrow> (shown # tr, Inr code)
           | (tr, None) \<Rightarrow>
               if truthy (args_get a ''dry_run'') then
                 then_do (shown # tr, Inr ()) (\<lambda>_. cli_dry_run active_extensions a)
               else
                 (case run B (depth - 1) extensions a of
                    (tr', Inl e) \<Rightarrow> (shown # tr @ tr' @ [Print (ErrorRunningLine e)], Inr 1)
                  | (tr', Inr out) \<Rightarrow> (shown # tr @ tr' @ [Print (ResultLine out)], Inr 0))))"

text \<open>
  \<open>main\<close> of \<open>main.py\<close>, in the same way. A failure of the resolution is not caught
  here; a failure of \<open>core.build_and_run\<close> is.
\<close>

definition main_py_main ::
  "'c backend \<Rightarrow> nat \<Rightarrow> 'c extension list \<Rightarrow> args \<Rightarrow> int step" where
  "main_py_main B depth exts a =
     (let extensions = register_all exts in
      case get_active_extensions depth extensions a of
        Inl e \<Rightarrow> ([], Inl e)
      | Inr active_extensions \<Rightarrow>
          (let shown = Print (ActiveExtensionsLine (map get_name active_extensions)) in
           case validate_or_exit active_extensions a of
             (tr, Some code) \<Rightarrow> (shown # tr, Inr code)
           | (tr, None) \<Rightarrow>
               if truthy (args_get a ''dry_run'') then
                 then_do (shown # tr, Inr ()) (\<lambda>_. main_py_dry_run a)
               else
                 (case build_and_run B active_extensions a of
                    (tr', Inl e) \<Rightarrow> (shown # tr @ tr' @ [Print (ErrorRunningLine e)], Inr 1)
                  | (tr', Inr c) \<Rightarrow> (shown # tr @ tr', Inr 0))))"

text \<open>
  \<open>main\<close> of \<open>core.py\<close>: it registers \<open>BasicExtension\<close> only, and catches nothing.
\<close>

definition core_main :: "'c backend \<Rightarrow> nat \<Rightarrow> args \<Rightarrow> unit step" where
  "core_main B depth a =
     (let extensions = register_all [BasicExtension] in
      case get_active_extensions depth extensions a of
        Inl e \<Rightarrow> ([], Inl e)
      | Inr active_extensions \<Rightarrow>
          then_do ([Print (ActiveExtensionsLine (map get_name active_extensions))], Inr ())
            (\<lambda>_.
          then_do (validate_all active_extensions a) (\<lambda>_.
            if truthy (args_get a ''dry_run'') then ([Print DryRunLine], Inr ())
            else then_do (build_and_run B active_extensions a) (\<lambda>_. ([], Inr ())))))"

section \<open>Graphs, invariants and trace predicates used in the statements\<close>

text \<open>
  The ordering-hint graph restricted to the active names: an edge \<open>(e, p)\<close> says that
  the active extension \<open>e\<close> hints the active extension \<open>p\<close> as a predecessor.
\<close>

definition hint_edges :: "'c ext_dict \<Rightarrow> (string \<times> string) set" where
  "hint_edges items =
     {(e, p). \<exists>x. map_of items e = Some x \<and> p \<in> set (get_load_order_hints x) \<and> p \<in> keys items}"

text \<open>
  \<open>hints_respected E placed\<close>: in the list of names \<open>placed\<close>, newest first, every
  name has all its \<open>E\<close>-successors among the names placed earlier.
\<close>

fun hints_respected :: "(string \<times> string) set \<Rightarrow> string list \<Rightarrow> bool" where
  "hints_respected E [] = True"
| "hints_respected E (x # older) = ((\<forall>p. (x, p) \<in> E \<longrightarrow> p \<in> set older) \<and> hints_respected E older)"

text \<open>
  The invariant of the depth-first search, for the names \<open>placed\<close> so far (newest
  first): \<open>result\<close> holds their extensions in placement order, they are the visited
  active names, no name is both in progress and done, and the hints are respected.
\<close>

definition sort_inv :: "'c ext_dict \<Rightarrow> 'c sort_state \<Rightarrow> string list \<Rightarrow> bool" where
  "sort_inv items st placed \<longleftrightarrow>
     result st = map (\<lambda>k. the (map_of items k)) (rev placed) \<and>
     distinct placed \<and>
     set placed = visited st \<inter> keys items \<and>
     temp_visited st \<inter> visited st = {} \<and>
     hints_respected (hint_edges items) placed"

text \<open>
  The error of a detected cycle: the message of \<open>visit\<close>, naming an extension \<open>c\<close>
  that lies on a cycle of the hint graph.
\<close>

definition circular_error :: "'c ext_dict \<Rightarrow> error \<Rightarrow> bool" where
  "circular_error items e \<longleftrightarrow>
     (\<exists>c. e = ValueError (''Circular dependency detected involving '' @ c) \<and>
          (c, c) \<in> (hint_edges items)\<^sup>+)"

text \<open>
  An extension, a dictionary and a sort state in which every hint that names no key of the
  dictionary has been removed. They say what it means that such a hint has no effect.
\<close>

definition active_hints_only :: "'c ext_dict \<Rightarrow> 'c extension \<Rightarrow> 'c extension" where
  "active_hints_only items ext =
     ext\<lparr>get_load_order_hints := filter (\<lambda>h. h \<in> keys items) (get_load_order_hints ext)\<rparr>"

definition drop_inactive_hints :: "'c ext_dict \<Rightarrow> 'c ext_dict" where
  "drop_inactive_hints items = map (\<lambda>(k, e). (k, active_hints_only items e)) items"


text \<open>
  \<open>added_by extensions active names new\<close>: the entries \<open>new\<close> that a scan appends to
  \<open>active\<close> have fresh, pairwise different keys among \<open>names\<close>, and each is the
  registry's entry for its key.
\<close>

definition added_by ::
  "'c ext_dict \<Rightarrow> 'c ext_dict \<Rightarrow> string set \<Rightarrow> 'c ext_dict \<Rightarrow> bool" where
  "added_by extensions active names new \<longleftrightarrow>
     distinct (map fst new) \<and> keys new \<inter> keys active = {} \<and> keys new \<subseteq> names \<and>
     (\<forall>k e. (k, e) \<in> set new \<longrightarrow> map_of extensions k = Some e)"

text \<open>The dependency names of the entries of a dictionary.\<close>

definition dependency_names :: "'c ext_dict \<Rightarrow> string set" where
  "dependency_names items = (\<Union>(nm, ext)\<in>set items. set (get_dependencies ext))"

text \<open>
  The dependency graph of the registry: an edge \<open>(x, d)\<close> says that a registered
  extension \<open>x\<close> names the registered extension \<open>d\<close> as a dependency.
\<close>

definition dependency_edges :: "'c ext_dict \<Rightarrow> (string \<times> string) set" where
  "dependency_edges extensions =
     {(x, d). \<exists>e. (x, e) \<in> set extensions \<and> d \<in> set (get_dependencies e) \<and> d \<in> keys extensions}"

text \<open>
  \<open>activated_or_required\<close>: the entry \<open>(k, e)\<close> of the registry is activated by its own
  hook, or \<open>k\<close> is reached from an entry activated by its hook along dependency edges.
\<close>

definition activated_or_required ::
  "'c ext_dict \<Rightarrow> args \<Rightarrow> string \<Rightarrow> 'c extension \<Rightarrow> bool" where
  "activated_or_required extensions a k e \<longleftrightarrow>
     (k, e) \<in> set extensions \<and>
     (check_args_for_activation e a \<or>
      (\<exists>s es. (s, es) \<in> set extensions \<and> check_args_for_activation es a \<and>
         (s, k) \<in> (dependency_edges extensions)\<^sup>+))"

text \<open>The events of the validation phase, and the events that only report.\<close>

fun is_validate :: "event \<Rightarrow> bool" where
  "is_validate (Validate n) = True"
| "is_validate ev = False"

fun validates_or_prints :: "event \<Rightarrow> bool" where
  "validates_or_prints (Validate n) = True"
| "validates_or_prints (Print l) = True"
| "validates_or_prints ev = False"

section \<open>Example configurations\<close>

text \<open>
  Two active sets from the test suite and the scenarios of the specification: \<open>home\<close>
  hints \<open>user\<close> (and is listed before it), and \<open>a\<close> and \<open>b\<close> hint each other.
\<close>

definition home_items :: "unit ext_dict" where
  "home_items =
     [(''basic'', BasicExtension),
      (''home'', MockExtension ''home'' [''user''] [''user'']),
      (''user'', MockExtension ''user'' [] [])]"

definition cycle_items :: "unit ext_dict" where
  "cycle_items =
     [(''a'', MockExtension ''a'' [] [''b'']),
      (''b'', MockExtension ''b'' [] [''a''])]"


text \<open>
  A long chain of hints: the extensions \<open>x\<close>, \<open>xx\<close>, \<open>xxx\<close>, ..., each hinting the
  next, and the last one hinting the one before it, so that the last two hint each other.
\<close>

definition chain_name :: "nat \<Rightarrow> string" where
  "chain_name i = replicate (Suc i) CHR ''x''"

definition hint_chain :: "nat \<Rightarrow> 'c ext_dict" where
  "hint_chain n =
     map (\<lambda>i. (chain_name i, MockExtension (chain_name i) [] [chain_name (Suc i)])) [0..<n] @
     [(chain_name n, MockExtension (chain_name n) [] [chain_name (n - 1)])]"

text \<open>
  The registry of the specification's scenario, \<open>basic\<close>, \<open>user\<close> and \<open>home\<close> (which
  depends on \<open>user\<close> and hints it), activated by the option \<open>home\<close>; and a registry
  in which \<open>main\<close> depends on a name that nobody registered.
\<close>

definition home_registry :: "unit ext_dict" where
  "home_registry =
     register_all [BasicExtension, MockExtension ''user'' [] [],
                   MockExtension ''home'' [''user''] [''user'']]"

definition home_args :: args where
  "home_args = [''image'' \<mapsto> PyStr ''ubuntu:20.04'', ''home'' \<mapsto> PyBool True]"

definition ghost_registry :: "unit ext_dict" where
  "ghost_registry = register_all [BasicExtension, MockExtension ''main'' [''ghost''] []]"

definition ghost_args :: args where
  "ghost_args = [''image'' \<mapsto> PyStr ''ubuntu:20.04'', ''main'' \<mapsto> PyBool True]"

text \<open>
  A backend in which every call succeeds; an extension whose validation raises; the
  registries and option sets of the runs below.
\<close>

definition ok_backend :: "string list backend" where
  "ok_backend =
     \<lparr> connect = None,
       from_image = (\<lambda>v. Inr [''from'']),
       with_exec = (\<lambda>c v. Inr (c @ [''exec''])),
       stdout = (\<lambda>c. Inr ''out''),
       sync = (\<lambda>c. Inr c) \<rparr>"

definition FailingExtension :: "string \<Rightarrow> 'c extension" where
  "FailingExtension nm =
     (MockExtension nm [] []) \<lparr> validate_environment := (\<lambda>a. Some (Raised ''missing'')) \<rparr>"

definition failing_registry :: "string list ext_dict" where
  "failing_registry =
     register_all [BasicExtension, FailingExtension ''bad'', MockExtension ''user'' [] []]"

definition failing_args :: args where
  "failing_args =
     [''image'' \<mapsto> PyStr ''ubuntu:20.04'', ''bad'' \<mapsto> PyBool True, ''user'' \<mapsto> PyBool True]"

definition home_extensions :: "string list extension list" where
  "home_extensions =
     [BasicExtension, MockExtension ''user'' [] [], MockExtension ''home'' [''user''] [''user'']]"

definition dry_run_args :: args where
  "dry_run_args =
     [''image'' \<mapsto> PyStr ''ubuntu:20.04'', ''command'' \<mapsto> PyList [''echo'', ''test''],
      ''home'' \<mapsto> PyBool True, ''dry_run'' \<mapsto> PyBool True]"

definition no_command_args :: args where
  "no_command_args = [''image'' \<mapsto> PyStr ''ubuntu:20.04'', ''command'' \<mapsto> PyList []]"

section \<open>The scheduler: termination, ordering, cycles\<close>

lemma visit_frame:
  "\<forall>st'. visit n items nm st = Inr st' \<longrightarrow>
     temp_visited st' = temp_visited st \<and> visited st \<subseteq> visited st' \<and> nm \<in> visited st'"
  "\<forall>st'. visit_hints n items hs st = Inr st' \<longrightarrow>
     temp_visited st' = temp_visited st \<and> visited st \<subseteq> visited st' \<and>
     (\<forall>h\<in>set hs. h \<in> keys items \<longrightarrow> h \<in> visited st')"
proof (induction n items nm st and n items hs st rule: visit_visit_hints.induct)
  case (1 items nm st)
  show ?case by simp
next
  case (2 n items nm st)
  show ?case
  proof (intro allI impI)
    fix st'
    assume run: "visit (Suc n) items nm st = Inr st'"
    then have nt: "nm \<notin> temp_visited st" by (auto split: if_splits)
    show "temp_visited st' = temp_visited st \<and> visited st \<subseteq> visited st' \<and> nm \<in> visited st'"
    proof (cases "nm \<in> visited st")
      case True
      with run nt show ?thesis by simp
    next
      case nv: False
      show ?thesis
      proof (cases "map_of items nm")
        case None
        with run nt nv show ?thesis by auto
      next
        case (Some ext)
        with run nt nv have n0: "n \<noteq> 0" by (auto split: if_splits)
        with Some run nt nv obtain st1 where
          h: "visit_hints n items (get_load_order_hints ext)
                (st\<lparr>temp_visited := insert nm (temp_visited st)\<rparr>) = Inr st1"
          and st': "st' = st1\<lparr>temp_visited := temp_visited st1 - {nm},
                              visited := insert nm (visited st1), result := result st1 @ [ext]\<rparr>"
          by (auto split: sum.splits simp: Let_def)
        from "2.IH" [OF nt nv Some n0] h
        have "temp_visited st1 = insert nm (temp_visited st)" "visited st \<subseteq> visited st1"
          by auto
        with st' nt show ?thesis by auto
      qed
    qed
  qed
next
  case (3 n items st)
  show ?case by simp
next
  case (4 n items dep deps st)
  show ?case
  proof (intro allI impI)
    fix st'
    assume run: "visit_hints n items (dep # deps) st = Inr st'"
    show "temp_visited st' = temp_visited st \<and> visited st \<subseteq> visited st' \<and>
          (\<forall>h\<in>set (dep # deps). h \<in> keys items \<longrightarrow> h \<in> visited st')"
    proof (cases "map_of items dep \<noteq> None")
      case False
      with run have "visit_hints n items deps st = Inr st'" by simp
      with "4.IH"(3) [OF False] False show ?thesis
        by (auto simp: map_of_None_iff_keys)
    next
      case True
      with run obtain st1 where v: "visit n items dep st = Inr st1"
        and r: "visit_hints n items deps st1 = Inr st'"
        by (auto split: sum.splits)
      from "4.IH"(1) [OF True] v
      have a: "temp_visited st1 = temp_visited st" "visited st \<subseteq> visited st1" "dep \<in> visited st1"
        by auto
      from "4.IH"(2) [OF True v] r
      have b: "temp_visited st' = temp_visited st1" "visited st1 \<subseteq> visited st'"
        "\<forall>h\<in>set deps. h \<in> keys items \<longrightarrow> h \<in> visited st'"
        by auto
      from a b show ?thesis by auto
    qed
  qed
qed

lemma visit_inv:
  "\<forall>st' placed. visit n items nm st = Inr st' \<longrightarrow> sort_inv items st placed \<longrightarrow>
     (\<exists>new. sort_inv items st' (new @ placed))"
  "\<forall>st' placed. visit_hints n items hs st = Inr st' \<longrightarrow> sort_inv items st placed \<longrightarrow>
     (\<exists>new. sort_inv items st' (new @ placed))"
proof (induction n items nm st and n items hs st rule: visit_visit_hints.induct)
  case (1 items nm st)
  show ?case by simp
next
  case (2 n items nm st)
  show ?case
  proof (intro allI impI)
    fix st' placed
    assume run: "visit (Suc n) items nm st = Inr st'"
      and inv: "sort_inv items st placed"
    from run have nt: "nm \<notin> temp_visited st" by (auto split: if_splits)
    show "\<exists>new. sort_inv items st' (new @ placed)"
    proof (cases "nm \<in> visited st")
      case True
      with run nt have "st' = st" by simp
      with inv have "sort_inv items st' ([] @ placed)" by simp
      then show ?thesis ..
    next
      case nv: False
      show ?thesis
      proof (cases "map_of items nm")
        case None
        with run nt nv
        have st': "st' = st\<lparr>temp_visited := insert nm (temp_visited st) - {nm},
                             visited := insert nm (visited st)\<rparr>"
          by auto
        from None have "nm \<notin> keys items" by (simp add: map_of_None_iff_keys)
        with inv st' nt have "sort_inv items st' ([] @ placed)"
          by (auto simp: sort_inv_def)
        then show ?thesis ..
      next
        case (Some ext)
        let ?st0 = "st\<lparr>temp_visited := insert nm (temp_visited st)\<rparr>"
        from run nt nv Some have n0: "n \<noteq> 0" by (auto split: if_splits)
        with run nt nv Some obtain st1 where
          h: "visit_hints n items (get_load_order_hints ext) ?st0 = Inr st1"
          and st': "st' = st1\<lparr>temp_visited := temp_visited st1 - {nm},
                              visited := insert nm (visited st1), result := result st1 @ [ext]\<rparr>"
          by (auto split: sum.splits simp: Let_def)
        from inv nv have "sort_inv items ?st0 placed" by (auto simp: sort_inv_def)
        with "2.IH" [OF nt nv Some n0] h obtain new where inv1: "sort_inv items st1 (new @ placed)"
          by blast
        from visit_frame(2) [of n items "get_load_order_hints ext" ?st0] h
        have t1: "temp_visited st1 = insert nm (temp_visited st)"
          and hs: "\<forall>h\<in>set (get_load_order_hints ext). h \<in> keys items \<longrightarrow> h \<in> visited st1"
          by auto
        from inv1 t1 have nv1: "nm \<notin> visited st1" by (auto simp: sort_inv_def)
        from Some have k: "nm \<in> keys items" by (rule map_of_Some_keys)
        have e: "\<forall>p. (nm, p) \<in> hint_edges items \<longrightarrow> p \<in> set (new @ placed)"
        proof (intro allI impI)
          fix p assume "(nm, p) \<in> hint_edges items"
          with Some have "p \<in> set (get_load_order_hints ext)" "p \<in> keys items"
            by (auto simp: hint_edges_def)
          with hs inv1 show "p \<in> set (new @ placed)" by (auto simp: sort_inv_def)
        qed
        have "sort_inv items st' ((nm # new) @ placed)"
          unfolding sort_inv_def
        proof (intro conjI)
          from inv1 st' Some
          show "result st' = map (\<lambda>k. the (map_of items k)) (rev ((nm # new) @ placed))"
            by (simp add: sort_inv_def)
          from inv1 nv1 show "distinct ((nm # new) @ placed)"
            by (auto simp: sort_inv_def)
          from inv1 k st' show "set ((nm # new) @ placed) = visited st' \<inter> keys items"
            by (auto simp: sort_inv_def)
          from inv1 st' nv1 show "temp_visited st' \<inter> visited st' = {}"
            by (auto simp: sort_inv_def)
          from inv1 e show "hints_respected (hint_edges items) ((nm # new) @ placed)"
            by (simp add: sort_inv_def)
        qed
        then show ?thesis ..
      qed
    qed
  qed
next
  case (3 n items st)
  show ?case
  proof (intro allI impI)
    fix st' placed
    assume "visit_hints n items [] st = Inr st'" "sort_inv items st placed"
    then have "sort_inv items st' ([] @ placed)" by simp
    then show "\<exists>new. sort_inv items st' (new @ placed)" ..
  qed
next
  case (4 n items dep deps st)
  show ?case
  proof (intro allI impI)
    fix st' placed
    assume run: "visit_hints n items (dep # deps) st = Inr st'"
      and inv: "sort_inv items st placed"
    show "\<exists>new. sort_inv items st' (new @ placed)"
    proof (cases "map_of items dep \<noteq> None")
      case False
      with run have "visit_hints n items deps st = Inr st'" by simp
      with "4.IH"(3) [OF False] inv show ?thesis by blast
    next
      case True
      with run obtain st1 where v: "visit n items dep st = Inr st1"
        and r: "visit_hints n items deps st1 = Inr st'"
        by (auto split: sum.splits)
      from "4.IH"(1) [OF True] v inv obtain new1 where
        i1: "sort_inv items st1 (new1 @ placed)" by blast
      from "4.IH"(2) [OF True v] r i1 obtain new2 where
        "sort_inv items st' (new2 @ new1 @ placed)" by blast
      then have "sort_inv items st' ((new2 @ new1) @ placed)" by simp
      then show ?thesis ..
    qed
  qed
qed

lemma visit_enough_depth:
  "card (keys items - temp_visited st) < n \<longrightarrow> visit n items nm st \<noteq> Inl RecursionError"
  "card (keys items - temp_visited st) < n \<longrightarrow>
     visit_hints n items hs st \<noteq> Inl RecursionError"
proof (induction n items nm st and n items hs st rule: visit_visit_hints.induct)
  case (1 items nm st)
  show ?case by simp
next
  case (2 n items nm st)
  show ?case
  proof
    assume room: "card (keys items - temp_visited st) < Suc n"
    show "visit (Suc n) items nm st \<noteq> Inl RecursionError"
    proof (cases "nm \<in> temp_visited st \<or> nm \<in> visited st")
      case True
      then show ?thesis by auto
    next
      case False
      then have nt: "nm \<notin> temp_visited st" and nv: "nm \<notin> visited st" by auto
      show ?thesis
      proof (cases "map_of items nm")
        case None
        with nt nv show ?thesis by simp
      next
        case (Some ext)
        then have "nm \<in> keys items - temp_visited st"
          using nt by (auto dest: map_of_Some_keys)
        moreover have "finite (keys items - temp_visited st)" by (simp add: keys_def)
        ultimately have less:
          "card (keys items - temp_visited st - {nm}) < card (keys items - temp_visited st)"
          by (rule_tac card_Diff1_less)
        with room have n0: "n \<noteq> 0" by simp
        have "keys items - insert nm (temp_visited st) = keys items - temp_visited st - {nm}"
          by auto
        with less have "card (keys items - insert nm (temp_visited st)) < n"
          using room by simp
        with "2.IH" [OF nt nv Some n0]
        have "visit_hints n items (get_load_order_hints ext)
                (st\<lparr>temp_visited := insert nm (temp_visited st)\<rparr>) \<noteq> Inl RecursionError"
          by simp
        with nt nv Some n0 show ?thesis
          by (auto split: sum.splits)
      qed
    qed
  qed
next
  case (3 n items st)
  show ?case by simp
next
  case (4 n items dep deps st)
  show ?case
  proof
    assume room: "card (keys items - temp_visited st) < n"
    show "visit_hints n items (dep # deps) st \<noteq> Inl RecursionError"
    proof (cases "map_of items dep \<noteq> None")
      case False
      with "4.IH"(3) [OF False] room show ?thesis by simp
    next
      case True
      from "4.IH"(1) [OF True] room have v: "visit n items dep st \<noteq> Inl RecursionError"
        by simp
      show ?thesis
      proof (cases "visit n items dep st")
        case (Inl e)
        with v True show ?thesis by auto
      next
        case (Inr st1)
        with visit_frame(1) [of n items dep st] have "temp_visited st1 = temp_visited st"
          by simp
        with "4.IH"(2) [OF True Inr] room
        have "visit_hints n items deps st1 \<noteq> Inl RecursionError"
          by simp
        with Inr True show ?thesis by simp
      qed
    qed
  qed
qed

lemma visit_error:
  "\<forall>e. visit n items nm st = Inl e \<longrightarrow>
     (\<forall>t\<in>temp_visited st. (t, nm) \<in> (hint_edges items)\<^sup>+) \<longrightarrow>
     e = RecursionError \<or> circular_error items e"
  "\<forall>e. visit_hints n items hs st = Inl e \<longrightarrow>
     (\<forall>h\<in>set hs. h \<in> keys items \<longrightarrow> (\<forall>t\<in>temp_visited st. (t, h) \<in> (hint_edges items)\<^sup>+)) \<longrightarrow>
     e = RecursionError \<or> circular_error items e"
proof (induction n items nm st and n items hs st rule: visit_visit_hints.induct)
  case (1 items nm st)
  show ?case by simp
next
  case (2 n items nm st)
  show ?case
  proof (intro allI impI)
    fix e
    assume run: "visit (Suc n) items nm st = Inl e"
      and path: "\<forall>t\<in>temp_visited st. (t, nm) \<in> (hint_edges items)\<^sup>+"
    show "e = RecursionError \<or> circular_error items e"
    proof (cases "nm \<in> temp_visited st")
      case True
      with run path show ?thesis by (auto simp: circular_error_def)
    next
      case nt: False
      with run have nv: "nm \<notin> visited st" by (auto split: if_splits)
      from run nt nv obtain ext where Some: "map_of items nm = Some ext"
        by (cases "map_of items nm") auto
      show ?thesis
      proof (cases "n = 0")
        case True
        with run nt nv Some show ?thesis by simp
      next
        case n0: False
        let ?st0 = "st\<lparr>temp_visited := insert nm (temp_visited st)\<rparr>"
        from run nt nv Some n0
        have h: "visit_hints n items (get_load_order_hints ext) ?st0 = Inl e"
          by (auto split: sum.splits)
        have "\<forall>h\<in>set (get_load_order_hints ext). h \<in> keys items \<longrightarrow>
                (\<forall>t\<in>temp_visited ?st0. (t, h) \<in> (hint_edges items)\<^sup>+)"
        proof (intro ballI impI)
          fix h t
          assume "h \<in> set (get_load_order_hints ext)" "h \<in> keys items"
          with Some have edge: "(nm, h) \<in> hint_edges items" by (auto simp: hint_edges_def)
          assume "t \<in> temp_visited ?st0"
          then consider "t = nm" | "t \<in> temp_visited st" by auto
          then show "(t, h) \<in> (hint_edges items)\<^sup>+"
          proof cases
            case 1
            with edge show ?thesis by auto
          next
            case 2
            with path have "(t, nm) \<in> (hint_edges items)\<^sup>+" by simp
            with edge show ?thesis by (auto intro: trancl_into_trancl)
          qed
        qed
        with "2.IH" [OF nt nv Some n0] h show ?thesis by blast
      qed
    qed
  qed
next
  case (3 n items st)
  show ?case by simp
next
  case (4 n items dep deps st)
  show ?case
  proof (intro allI impI)
    fix e
    assume run: "visit_hints n items (dep # deps) st = Inl e"
      and path: "\<forall>h\<in>set (dep # deps). h \<in> keys items \<longrightarrow>
                   (\<forall>t\<in>temp_visited st. (t, h) \<in> (hint_edges items)\<^sup>+)"
    show "e = RecursionError \<or> circular_error items e"
    proof (cases "map_of items dep \<noteq> None")
      case False
      with run have "visit_hints n items deps st = Inl e" by simp
      with "4.IH"(3) [OF False] path show ?thesis by simp
    next
      case True
      then have k: "dep \<in> keys items" by (simp add: map_of_None_iff_keys)
      show ?thesis
      proof (cases "visit n items dep st")
        case (Inl e')
        with run True have "e' = e" by simp
        with "4.IH"(1) [OF True] Inl path k show ?thesis by simp
      next
        case (Inr st1)
        with run True have r: "visit_hints n items deps st1 = Inl e" by simp
        from visit_frame(1) [of n items dep st] Inr
        have "temp_visited st1 = temp_visited st" by simp
        with "4.IH"(2) [OF True Inr] r path show ?thesis by simp
      qed
    qed
  qed
qed

lemma visit_all_frame:
  "visit_all n items names st = Inr st' \<Longrightarrow>
     temp_visited st' = temp_visited st \<and> visited st \<subseteq> visited st' \<and> set names \<subseteq> visited st'"
proof (induction names arbitrary: st)
  case Nil
  then show ?case by simp
next
  case (Cons nm names)
  from Cons.prems obtain st1 where v: "visit n items nm st = Inr st1"
    and r: "visit_all n items names st1 = Inr st'"
    by (auto split: sum.splits)
  from visit_frame(1) [of n items nm st] v Cons.IH [OF r] show ?case by auto
qed

lemma visit_all_inv:
  "visit_all n items names st = Inr st' \<Longrightarrow> sort_inv items st placed \<Longrightarrow>
     \<exists>new. sort_inv items st' (new @ placed)"
proof (induction names arbitrary: st placed)
  case Nil
  then have "sort_inv items st' ([] @ placed)" by simp
  then show ?case ..
next
  case (Cons nm names)
  from Cons.prems(1) obtain st1 where v: "visit n items nm st = Inr st1"
    and r: "visit_all n items names st1 = Inr st'"
    by (auto split: sum.splits)
  from visit_inv(1) [of n items nm st] v Cons.prems(2) obtain new1 where
    "sort_inv items st1 (new1 @ placed)" by blast
  from Cons.IH [OF r this] obtain new2 where "sort_inv items st' (new2 @ new1 @ placed)" ..
  then have "sort_inv items st' ((new2 @ new1) @ placed)" by simp
  then show ?case ..
qed

lemma visit_all_enough_depth:
  "card (keys items - temp_visited st) < n \<Longrightarrow> visit_all n items names st \<noteq> Inl RecursionError"
proof (induction names arbitrary: st)
  case Nil
  show ?case by simp
next
  case (Cons nm names)
  from visit_enough_depth(1) [of items st n nm] Cons.prems
  have v: "visit n items nm st \<noteq> Inl RecursionError" by simp
  show ?case
  proof (cases "visit n items nm st")
    case (Inl e)
    with v show ?thesis by auto
  next
    case (Inr st1)
    with visit_frame(1) [of n items nm st] have "temp_visited st1 = temp_visited st" by simp
    with Cons.IH [of st1] Cons.prems have "visit_all n items names st1 \<noteq> Inl RecursionError"
      by simp
    with Inr show ?thesis by simp
  qed
qed

lemma visit_all_error:
  "visit_all n items names st = Inl e \<Longrightarrow> temp_visited st = {} \<Longrightarrow>
     e = RecursionError \<or> circular_error items e"
proof (induction names arbitrary: st)
  case Nil
  then show ?case by simp
next
  case (Cons nm names)
  show ?case
  proof (cases "visit n items nm st")
    case (Inl e')
    with Cons.prems(1) have "e' = e" by simp
    with visit_error(1) [of n items nm st] Inl Cons.prems(2) show ?thesis by simp
  next
    case (Inr st1)
    with Cons.prems(1) have r: "visit_all n items names st1 = Inl e" by simp
    from visit_frame(1) [of n items nm st] Inr Cons.prems(2)
    have "temp_visited st1 = {}" by simp
    from Cons.IH [OF r this] show ?thesis .
  qed
qed

lemma sort_extensions_enough_depth:
  assumes "length items < depth"
  shows "sort_extensions depth items a \<noteq> Inl RecursionError"
proof -
  have "card (keys items) \<le> length items"
    unfolding keys_def using card_length [of "map fst items"] by simp
  with assms
  have "card (keys items - temp_visited \<lparr>visited = {}, temp_visited = {}, result = []\<rparr>)
               < depth"
    by simp
  from visit_all_enough_depth [OF this, of "map fst items"]
  show ?thesis
    by (auto simp: sort_extensions_def topological_sort_def split: sum.splits)
qed

lemma sort_extensions_error:
  assumes "sort_extensions depth items a = Inl e"
  shows "e = RecursionError \<or> circular_error items e"
proof -
  from assms
  have "visit_all depth items (map fst items)
          \<lparr>visited = {}, temp_visited = {}, result = []\<rparr> = Inl e"
    by (auto simp: sort_extensions_def topological_sort_def split: sum.splits)
  then show ?thesis by (rule visit_all_error) simp
qed


lemma sort_extensions_placed:
  assumes "sort_extensions depth items a = Inr r"
  shows "\<exists>placed. r = map (\<lambda>k. the (map_of items k)) (rev placed) \<and> distinct placed \<and>
           set placed = keys items \<and> hints_respected (hint_edges items) placed"
proof -
  let ?st0 = "\<lparr>visited = {}, temp_visited = {}, result = []\<rparr> :: 'a sort_state"
  from assms obtain st where
    run: "visit_all depth items (map fst items) ?st0 = Inr st"
    and r: "r = result st"
    by (auto simp: sort_extensions_def topological_sort_def split: sum.splits)
  have "sort_inv items ?st0 []" by (simp add: sort_inv_def)
  from visit_all_inv [OF run this] obtain placed where inv: "sort_inv items st placed"
    by auto
  from visit_all_frame [OF run] have "keys items \<subseteq> visited st" by (simp add: keys_def)
  with inv r show ?thesis by (auto simp: sort_inv_def)
qed

lemma hints_respected_closed:
  "hints_respected E l \<Longrightarrow> x \<in> set l \<Longrightarrow> (x, p) \<in> E \<Longrightarrow> p \<in> set l"
  by (induction l) auto


lemma hints_respected_rank:
  "hints_respected E l \<Longrightarrow> distinct l \<Longrightarrow> x \<in> set l \<Longrightarrow> (x, p) \<in> E \<Longrightarrow>
     length (dropWhile (\<lambda>y. y \<noteq> p) l) < length (dropWhile (\<lambda>y. y \<noteq> x) l)"
proof (induction l)
  case Nil
  then show ?case by simp
next
  case (Cons y older)
  show ?case
  proof (cases "x = y")
    case True
    with Cons.prems have "p \<in> set older" "y \<notin> set older" by auto
    then have "p \<noteq> y" by auto
    moreover have "length (dropWhile (\<lambda>y. y \<noteq> p) older) \<le> length older"
      by (rule length_dropWhile_le)
    ultimately show ?thesis using True by simp
  next
    case False
    with Cons.prems have x: "x \<in> set older" and h: "hints_respected E older" by auto
    from hints_respected_closed [OF h x Cons.prems(4)] Cons.prems(2) have "p \<noteq> y" by auto
    with False Cons.IH [OF h _ x Cons.prems(4)] Cons.prems(2) show ?thesis by simp
  qed
qed

lemma sort_extensions_success_acyclic:
  assumes "sort_extensions depth items a = Inr r"
  shows "acyclic (hint_edges items)"
proof -
  from sort_extensions_placed [OF assms] obtain placed where
    d: "distinct placed" and s: "set placed = keys items"
    and h: "hints_respected (hint_edges items) placed"
    by auto
  let ?f = "\<lambda>x. length (dropWhile (\<lambda>y. y \<noteq> x) placed)"
  have "hint_edges items \<subseteq> (inv_image less_than ?f)\<inverse>"
  proof
    fix e assume e: "e \<in> hint_edges items"
    obtain x p where xp: "e = (x, p)" by (cases e)
    with e have "x \<in> keys items" by (auto simp: hint_edges_def dest: map_of_Some_keys)
    with s have "x \<in> set placed" by simp
    from hints_respected_rank [OF h d this] e xp
    show "e \<in> (inv_image less_than ?f)\<inverse>" by simp
  qed
  moreover have "acyclic ((inv_image less_than ?f)\<inverse>)"
    unfolding acyclic_converse by (intro wf_acyclic wf_inv_image wf_less_than)
  ultimately show ?thesis by (rule acyclic_subset [rotated])
qed




text \<open>
  With one more nested call allowed, a sort that did not run out of depth gives the same
  answer: above the bound, the result does not depend on the depth that is left.
\<close>

lemma visit_deeper:
  "visit n items nm st \<noteq> Inl RecursionError \<longrightarrow>
     visit (Suc n) items nm st = visit n items nm st"
  "visit_hints n items hs st \<noteq> Inl RecursionError \<longrightarrow>
     visit_hints (Suc n) items hs st = visit_hints n items hs st"
proof (induction n items nm st and n items hs st rule: visit_visit_hints.induct)
  case (1 items nm st)
  show ?case by simp
next
  case (2 n items nm st)
  show ?case
  proof
    assume ok: "visit (Suc n) items nm st \<noteq> Inl RecursionError"
    show "visit (Suc (Suc n)) items nm st = visit (Suc n) items nm st"
    proof (cases "nm \<in> temp_visited st \<or> nm \<in> visited st")
      case True
      then show ?thesis by auto
    next
      case False
      then have nt: "nm \<notin> temp_visited st" and nv: "nm \<notin> visited st" by auto
      show ?thesis
      proof (cases "map_of items nm")
        case None
        with nt nv show ?thesis by simp
      next
        case (Some ext)
        let ?st0 = "st\<lparr>temp_visited := insert nm (temp_visited st)\<rparr>"
        from ok nt nv Some have n0: "n \<noteq> 0" by (auto split: if_splits)
        with ok nt nv Some
        have "visit_hints n items (get_load_order_hints ext) ?st0 \<noteq> Inl RecursionError"
          by (auto split: sum.splits)
        with "2.IH" [OF nt nv Some n0]
        have "visit_hints (Suc n) items (get_load_order_hints ext) ?st0 =
              visit_hints n items (get_load_order_hints ext) ?st0" by simp
        with nt nv Some n0 show ?thesis by simp
      qed
    qed
  qed
next
  case (3 n items st)
  show ?case by simp
next
  case (4 n items dep deps st)
  show ?case
  proof
    assume ok: "visit_hints n items (dep # deps) st \<noteq> Inl RecursionError"
    show "visit_hints (Suc n) items (dep # deps) st = visit_hints n items (dep # deps) st"
    proof (cases "map_of items dep \<noteq> None")
      case False
      with ok "4.IH"(3) [OF False] show ?thesis by simp
    next
      case True
      show ?thesis
      proof (cases "visit n items dep st")
        case (Inl e)
        with ok True have "e \<noteq> RecursionError" by auto
        with Inl "4.IH"(1) [OF True] have "visit (Suc n) items dep st = Inl e" by simp
        with Inl True show ?thesis by (simp del: visit.simps)
      next
        case (Inr st1)
        with "4.IH"(1) [OF True] have v': "visit (Suc n) items dep st = Inr st1" by simp
        from ok Inr True have "visit_hints n items deps st1 \<noteq> Inl RecursionError" by simp
        with "4.IH"(2) [OF True Inr]
        have "visit_hints (Suc n) items deps st1 = visit_hints n items deps st1" by simp
        with v' Inr True show ?thesis by (simp del: visit.simps)
      qed
    qed
  qed
qed

lemma visit_all_deeper:
  "visit_all n items names st \<noteq> Inl RecursionError \<Longrightarrow>
     visit_all (Suc n) items names st = visit_all n items names st"
proof (induction names arbitrary: st)
  case Nil
  show ?case by simp
next
  case (Cons nm names)
  show ?case
  proof (cases "visit n items nm st")
    case (Inl e)
    with Cons.prems have "e \<noteq> RecursionError" by auto
    with Inl visit_deeper(1) [of n items nm st] have "visit (Suc n) items nm st = Inl e"
      by simp
    with Inl show ?thesis by (simp del: visit.simps)
  next
    case (Inr st1)
    with visit_deeper(1) [of n items nm st] have v': "visit (Suc n) items nm st = Inr st1"
      by simp
    from Cons.prems Inr have "visit_all n items names st1 \<noteq> Inl RecursionError" by simp
    from Cons.IH [OF this] v' Inr show ?thesis by (simp del: visit.simps)
  qed
qed

lemma sort_extensions_depth_irrelevant:
  assumes "length items < depth"
  shows "sort_extensions (depth + k) items a = sort_extensions depth items a"
proof (induction k)
  case 0
  show ?case by simp
next
  case (Suc k)
  let ?st0 = "\<lparr>visited = {}, temp_visited = {}, result = []\<rparr> :: 'a sort_state"
  from assms have "length items < depth + k" by simp
  from sort_extensions_enough_depth [OF this, of a]
  have "visit_all (depth + k) items (map fst items) ?st0 \<noteq> Inl RecursionError"
    by (auto simp: sort_extensions_def topological_sort_def split: sum.splits)
  from visit_all_deeper [OF this]
  have "sort_extensions (depth + Suc k) items a = sort_extensions (depth + k) items a"
    by (simp add: sort_extensions_def topological_sort_def)
  with Suc show ?case by simp
qed


lemma keys_drop_inactive_hints: "keys (drop_inactive_hints items) = keys items"
  by (auto simp: drop_inactive_hints_def keys_def intro: rev_image_eqI)






lemma inj_chain_name: "chain_name i = chain_name j \<longleftrightarrow> i = j"
proof
  assume "chain_name i = chain_name j"
  then have "length (chain_name i) = length (chain_name j)" by simp
  then show "i = j" by (simp add: chain_name_def)
qed simp

lemma keys_hint_chain: "map fst (hint_chain n) = map chain_name [0..<Suc n]"
  by (simp add: hint_chain_def comp_def)

lemma distinct_hint_chain: "distinct (map fst (hint_chain n))"
  unfolding keys_hint_chain
  by (simp add: distinct_map inj_chain_name inj_on_def del: upt_Suc)

lemma map_of_hint_chain_inner:
  "i < n \<Longrightarrow> map_of (hint_chain n) (chain_name i) =
     Some (MockExtension (chain_name i) [] [chain_name (Suc i)])"
proof -
  assume "i < n"
  then have "(chain_name i, MockExtension (chain_name i) [] [chain_name (Suc i)])
      \<in> set (hint_chain n :: 'a ext_dict)"
    by (auto simp: hint_chain_def)
  with distinct_hint_chain show ?thesis
    by (rule map_of_is_SomeI)
qed

lemma map_of_hint_chain_last:
  "map_of (hint_chain n) (chain_name n) =
     Some (MockExtension (chain_name n) [] [chain_name (n - 1)])"
proof -
  have "(chain_name n, MockExtension (chain_name n) [] [chain_name (n - 1)])
      \<in> set (hint_chain n :: 'a ext_dict)"
    by (simp add: hint_chain_def)
  with distinct_hint_chain show ?thesis
    by (rule map_of_is_SomeI)
qed

lemma visit_hint_chain:
  "i \<le> n \<Longrightarrow> d \<le> n - i + 1 \<Longrightarrow>
   \<forall>j. i \<le> j \<and> j \<le> n \<longrightarrow> chain_name j \<notin> temp_visited st \<and> chain_name j \<notin> visited st \<Longrightarrow>
     visit d (hint_chain n) (chain_name i) st = Inl RecursionError"
proof (induction d arbitrary: i st)
  case 0
  show ?case by simp
next
  case (Suc d)
  from Suc.prems(1,3) have nt: "chain_name i \<notin> temp_visited st"
    and nv: "chain_name i \<notin> visited st" by auto
  show ?case
  proof (cases "d = 0")
    case True
    with nt nv Suc.prems(1) show ?thesis
      by (cases "i < n") (auto simp: map_of_hint_chain_inner map_of_hint_chain_last)
  next
    case d0: False
    with Suc.prems(2) have less: "i < n" by simp
    let ?st0 = "st\<lparr>temp_visited := insert (chain_name i) (temp_visited st)\<rparr>"
    from less Suc.prems(2) have "Suc i \<le> n" "d \<le> n - Suc i + 1" by simp_all
    moreover from Suc.prems(3)
    have "\<forall>j. Suc i \<le> j \<and> j \<le> n \<longrightarrow>
            chain_name j \<notin> temp_visited ?st0 \<and> chain_name j \<notin> visited ?st0"
      by (auto simp: inj_chain_name)
    ultimately have v: "visit d (hint_chain n) (chain_name (Suc i)) ?st0 = Inl RecursionError"
      by (rule Suc.IH)
    have "map_of (hint_chain n) (chain_name (Suc i)) \<noteq> None"
      using \<open>Suc i \<le> n\<close> map_of_hint_chain_inner [of "Suc i" n] map_of_hint_chain_last [of n]
      by (cases "Suc i = n") auto
    with v have "visit_hints d (hint_chain n) [chain_name (Suc i)] ?st0 = Inl RecursionError"
      by (simp del: visit.simps)
    with nt nv d0 less show ?thesis
      by (simp add: map_of_hint_chain_inner MockExtension_def del: visit_hints.simps)
  qed
qed

lemma sort_extensions_hint_chain:
  assumes "depth \<le> n + 1"
  shows "sort_extensions depth (hint_chain n) a = Inl RecursionError"
proof -
  let ?st0 = "\<lparr>visited = {}, temp_visited = {}, result = []\<rparr> :: 'a sort_state"
  have "map fst (hint_chain n :: 'a ext_dict) = chain_name 0 # map chain_name [1..<Suc n]"
    unfolding keys_hint_chain by (simp add: upt_conv_Cons del: upt_Suc)
  moreover from assms have "visit depth (hint_chain n) (chain_name 0) ?st0 = Inl RecursionError"
    by (intro visit_hint_chain) simp_all
  ultimately show ?thesis
    by (simp add: sort_extensions_def topological_sort_def del: upt_Suc)
qed

lemma sort_extensions_mset:
  assumes "distinct (map fst items)" and "sort_extensions depth items a = Inr r"
  shows "mset r = mset (map snd items)"
proof -
  from sort_extensions_placed [OF assms(2)] obtain placed where
    rp: "r = map (\<lambda>k. the (map_of items k)) (rev placed)" and d: "distinct placed"
    and s: "set placed = keys items"
    by auto
  from s have "set placed = set (map fst items)" by (simp add: keys_def)
  with d assms(1) have "mset placed = mset (map fst items)"
    using set_eq_iff_mset_eq_distinct by blast
  then have "mset (rev placed) = mset (map fst items)" by simp
  then have "mset (map (\<lambda>k. the (map_of items k)) (rev placed)) =
             mset (map (\<lambda>k. the (map_of items k)) (map fst items))"
    by (simp only: mset_map)
  also have "map (\<lambda>k. the (map_of items k)) (map fst items) = map snd items"
    using assms(1) by (auto simp: map_of_eq_Some_iff [THEN iffD2])
  finally show ?thesis using rp by simp
qed

section \<open>The activation resolver: what a scan adds, and the fixpoint\<close>

lemma dict_set_new: "map_of d k = None \<Longrightarrow> dict_set d k v = d @ [(k, v)]"
  by (induction d) (auto split: if_splits)

lemma keys_append: "keys (xs @ ys) = keys xs \<union> keys ys"
  by (simp add: keys_def)

lemma keys_Cons: "keys ((k, v) # xs) = insert k (keys xs)"
  by (simp add: keys_def)

lemma keys_Nil: "keys [] = {}"
  by (simp add: keys_def)

lemma in_keys: "(k, v) \<in> set d \<Longrightarrow> k \<in> keys d"
  by (force simp: keys_def)

lemma distinct_keys_append:
  "distinct (map fst (xs @ ys)) \<longleftrightarrow>
     distinct (map fst xs) \<and> distinct (map fst ys) \<and> keys xs \<inter> keys ys = {}"
  by (simp add: keys_def)

lemma added_by_Nil: "added_by extensions active names []"
  by (simp add: added_by_def keys_Nil)

lemma added_by_mono: "added_by extensions active names new \<Longrightarrow> names \<subseteq> names' \<Longrightarrow>
    added_by extensions active names' new"
  by (auto simp: added_by_def)

lemma added_by_Cons:
  assumes "added_by extensions (active @ [(k, e)]) names new"
    and "map_of extensions k = Some e" and "k \<notin> keys active"
  shows "added_by extensions active (insert k names) ((k, e) # new)"
  using assms unfolding added_by_def keys_append keys_Cons keys_Nil
  by (auto dest: in_keys)

lemma added_by_append:
  assumes "added_by extensions active names1 new1"
    and "added_by extensions (active @ new1) names2 new2"
  shows "added_by extensions active (names1 \<union> names2) (new1 @ new2)"
  using assms unfolding added_by_def keys_append distinct_keys_append
  by auto

lemma add_dependencies_appends:
  "add_dependencies extensions deps (active, changed) = (active', changed') \<Longrightarrow>
     \<exists>new. active' = active @ new \<and> added_by extensions active (set deps) new \<and>
       (changed' \<longleftrightarrow> changed \<or> new \<noteq> []) \<and>
       (\<forall>d\<in>set deps. d \<in> keys extensions \<longrightarrow> d \<in> keys active')"
proof (induction deps arbitrary: active changed)
  case Nil
  then show ?case by (simp add: added_by_Nil)
next
  case (Cons dep_name deps)
  show ?case
  proof (cases "map_of active dep_name = None \<and> map_of extensions dep_name \<noteq> None")
    case False
    with Cons.prems
    have "add_dependencies extensions deps (active, changed) = (active', changed')"
      by (auto split: option.splits)
    from Cons.IH [OF this] obtain new where new: "active' = active @ new"
       "added_by extensions active (set deps) new" "changed' \<longleftrightarrow> changed \<or> new \<noteq> []"
       "\<forall>d\<in>set deps. d \<in> keys extensions \<longrightarrow> d \<in> keys active'"
      by blast
    from False have "dep_name \<in> keys extensions \<longrightarrow> dep_name \<in> keys active"
      by (auto simp: map_of_None_iff_keys)
    with new(1) have "dep_name \<in> keys extensions \<longrightarrow> dep_name \<in> keys active'"
      by (simp add: keys_append)
    moreover from new(2) have "added_by extensions active (set (dep_name # deps)) new"
      by (rule added_by_mono) auto
    ultimately have "active' = active @ new \<and>
       added_by extensions active (set (dep_name # deps)) new \<and>
       (changed' \<longleftrightarrow> changed \<or> new \<noteq> []) \<and>
       (\<forall>d\<in>set (dep_name # deps). d \<in> keys extensions \<longrightarrow> d \<in> keys active')"
      using new by simp
    then show ?thesis ..
  next
    case True
    then obtain ext where inactive: "map_of active dep_name = None"
      and Some: "map_of extensions dep_name = Some ext" by auto
    with Cons.prems
    have "add_dependencies extensions deps (active @ [(dep_name, ext)], True) =
            (active', changed')"
      by (simp add: dict_set_new)
    from Cons.IH [OF this] obtain new where new: "active' = (active @ [(dep_name, ext)]) @ new"
       "added_by extensions (active @ [(dep_name, ext)]) (set deps) new"
       "changed' \<longleftrightarrow> True \<or> new \<noteq> []"
       "\<forall>d\<in>set deps. d \<in> keys extensions \<longrightarrow> d \<in> keys active'"
      by blast
    from inactive have na: "dep_name \<notin> keys active" by (simp add: map_of_None_iff_keys)
    from added_by_Cons [OF new(2) Some na]
    have "added_by extensions active (set (dep_name # deps)) ((dep_name, ext) # new)"
      by simp
    moreover from new(1) have "dep_name \<in> keys active'"
      by (simp add: keys_append keys_Cons)
    ultimately have "active' = active @ ((dep_name, ext) # new) \<and>
       added_by extensions active (set (dep_name # deps)) ((dep_name, ext) # new) \<and>
       (changed' \<longleftrightarrow> changed \<or> (dep_name, ext) # new \<noteq> []) \<and>
       (\<forall>d\<in>set (dep_name # deps). d \<in> keys extensions \<longrightarrow> d \<in> keys active')"
      using new by simp
    then show ?thesis ..
  qed
qed

lemma scan_items_appends:
  "scan_items extensions items (active, changed) = (active', changed') \<Longrightarrow>
     \<exists>new. active' = active @ new \<and> added_by extensions active (dependency_names items) new \<and>
       (changed' \<longleftrightarrow> changed \<or> new \<noteq> []) \<and>
       dependency_names items \<inter> keys extensions \<subseteq> keys active'"
proof (induction items arbitrary: active changed)
  case Nil
  then show ?case by (simp add: added_by_Nil dependency_names_def)
next
  case (Cons item items)
  obtain nm ext where item: "item = (nm, ext)" by (cases item)
  obtain a1 c1 where step:
    "add_dependencies extensions (get_dependencies ext) (active, changed) = (a1, c1)"
    by (cases "add_dependencies extensions (get_dependencies ext) (active, changed)")
  from Cons.prems item step
  have rest: "scan_items extensions items (a1, c1) = (active', changed')" by simp
  from add_dependencies_appends [OF step] obtain new1 where n1: "a1 = active @ new1"
    "added_by extensions active (set (get_dependencies ext)) new1"
    "c1 \<longleftrightarrow> changed \<or> new1 \<noteq> []"
    "\<forall>d\<in>set (get_dependencies ext). d \<in> keys extensions \<longrightarrow> d \<in> keys a1"
    by blast
  from Cons.IH [OF rest] obtain new2 where n2: "active' = a1 @ new2"
    "added_by extensions a1 (dependency_names items) new2"
    "changed' \<longleftrightarrow> c1 \<or> new2 \<noteq> []"
    "dependency_names items \<inter> keys extensions \<subseteq> keys active'"
    by blast
  have names: "dependency_names (item # items) =
      set (get_dependencies ext) \<union> dependency_names items"
    by (simp add: dependency_names_def item)
  from added_by_append [OF n1(2)] n2(2) n1(1)
  have "added_by extensions active (dependency_names (item # items)) (new1 @ new2)"
    by (simp add: names)
  moreover from n2(1) have "keys a1 \<subseteq> keys active'" by (simp add: keys_append)
  with n1(4) n2(4)
  have "dependency_names (item # items) \<inter> keys extensions \<subseteq> keys active'"
    unfolding names by blast
  ultimately have "active' = active @ (new1 @ new2) \<and>
       added_by extensions active (dependency_names (item # items)) (new1 @ new2) \<and>
       (changed' \<longleftrightarrow> changed \<or> new1 @ new2 \<noteq> []) \<and>
       dependency_names (item # items) \<inter> keys extensions \<subseteq> keys active'"
    using n1(1,3) n2(1,3) by simp
  then show ?case ..
qed

lemma set_dict_set_subset: "set (dict_set d k v) \<subseteq> insert (k, v) (set d)"
  by (induction d) (auto split: if_splits)

lemma dict_set_mem: "(k, v) \<in> set (dict_set d k v)"
  by (induction d) auto

lemma dict_set_other: "(n, e) \<in> set d \<Longrightarrow> n \<noteq> k \<Longrightarrow> (n, e) \<in> set (dict_set d k v)"
  by (induction d) auto

lemma distinct_dict_set: "distinct (map fst d) \<Longrightarrow> distinct (map fst (dict_set d k v))"
proof (cases "map_of d k")
  case None
  assume "distinct (map fst d)"
  with None show ?thesis
    by (simp add: dict_set_new map_of_None_iff_keys keys_def)
next
  case (Some w)
  assume "distinct (map fst d)"
  moreover have "map fst (dict_set d k v) = map fst d" using Some
    by (induction d) (auto split: if_splits)
  ultimately show ?thesis by simp
qed

lemma seed_active_subset:
  "set (seed_active rest a active) \<subseteq>
     set active \<union> {(nm, ext). (nm, ext) \<in> set rest \<and> check_args_for_activation ext a}"
proof (induction rest arbitrary: active)
  case Nil
  show ?case by simp
next
  case (Cons item rest)
  obtain nm ext where item: "item = (nm, ext)" by (cases item)
  from Cons [of "if check_args_for_activation ext a then dict_set active nm ext else active"]
    set_dict_set_subset [of active nm ext]
  show ?case unfolding item by (auto split: if_splits)
qed

lemma seed_active_distinct:
  "distinct (map fst active) \<Longrightarrow> distinct (map fst (seed_active rest a active))"
proof (induction rest arbitrary: active)
  case Nil
  then show ?case by simp
next
  case (Cons item rest)
  obtain nm ext where item: "item = (nm, ext)" by (cases item)
  from Cons.prems have
    "distinct (map fst (if check_args_for_activation ext a then dict_set active nm ext else active))"
    by (simp add: distinct_dict_set)
  from Cons.IH [OF this] show ?case by (simp add: item)
qed

lemma seed_active_keeps:
  "(n, e) \<in> set active \<Longrightarrow> n \<notin> keys rest \<Longrightarrow> (n, e) \<in> set (seed_active rest a active)"
proof (induction rest arbitrary: active)
  case Nil
  then show ?case by simp
next
  case (Cons item rest)
  obtain nm ext where item: "item = (nm, ext)" by (cases item)
  from Cons.prems item have ne: "n \<noteq> nm" and nr: "n \<notin> keys rest"
    by (auto simp: keys_Cons)
  from Cons.prems(1) ne
  have "(n, e) \<in> set (if check_args_for_activation ext a then dict_set active nm ext else active)"
    by (simp add: dict_set_other)
  from Cons.IH [OF this nr] show ?case by (simp add: item)
qed

lemma seed_active_contains:
  "distinct (map fst rest) \<Longrightarrow> (n, e) \<in> set rest \<Longrightarrow> check_args_for_activation e a \<Longrightarrow>
     (n, e) \<in> set (seed_active rest a active)"
proof (induction rest arbitrary: active)
  case Nil
  then show ?case by simp
next
  case (Cons item rest)
  obtain nm ext where item: "item = (nm, ext)" by (cases item)
  show ?case
  proof (cases "(n, e) = (nm, ext)")
    case True
    from Cons.prems(1) item have "nm \<notin> keys rest" by (simp add: keys_def)
    with True Cons.prems(3) seed_active_keeps [of nm ext "dict_set active nm ext" rest a]
    show ?thesis by (simp add: item dict_set_mem)
  next
    case False
    with Cons.prems item have "distinct (map fst rest)" "(n, e) \<in> set rest" by auto
    from Cons.IH [OF this Cons.prems(3)] show ?thesis by (simp add: item)
  qed
qed

lemma expand_dependencies_inv:
  assumes "I active"
    and "\<And>act act' ch. I act \<Longrightarrow> scan_items extensions act (act, False) = (act', ch) \<Longrightarrow> I act'"
  shows "I (expand_dependencies extensions active)"
  using assms
proof (induction extensions active rule: expand_dependencies.induct)
  case (1 extensions active)
  obtain act' ch where scan: "scan_items extensions active (active, False) = (act', ch)"
    by (cases "scan_items extensions active (active, False)")
  from "1.prems"(2) [OF "1.prems"(1) scan] have I': "I act'" .
  show ?case
  proof (cases ch)
    case True
    from "1.IH" [OF scan [symmetric] True I' "1.prems"(2)] scan True show ?thesis
      by (simp add: expand_dependencies.simps [of extensions active])
  next
    case False
    with scan I' show ?thesis
      by (simp add: expand_dependencies.simps [of extensions active])
  qed
qed

lemma expand_dependencies_closed:
  "dependency_names (expand_dependencies extensions active) \<inter> keys extensions
     \<subseteq> keys (expand_dependencies extensions active)"
proof (induction extensions active rule: expand_dependencies.induct)
  case (1 extensions active)
  obtain act' ch where scan: "scan_items extensions active (active, False) = (act', ch)"
    by (cases "scan_items extensions active (active, False)")
  show ?case
  proof (cases ch)
    case True
    from "1.IH" [OF scan [symmetric] True] scan True show ?thesis
      by (simp add: expand_dependencies.simps [of extensions active])
  next
    case False
    from scan_items_appends [OF scan] False
    have "act' = active" "dependency_names active \<inter> keys extensions \<subseteq> keys act'"
      by auto
    with scan False show ?thesis
      by (simp add: expand_dependencies.simps [of extensions active])
  qed
qed

lemma register_all_distinct: "distinct (map fst (register_all exts))"
proof -
  have "distinct (map fst (foldl register_extension d exts))" if "distinct (map fst d)"
    for d :: "'a ext_dict"
    using that
    by (induction exts arbitrary: d) (simp_all add: register_extension_def distinct_dict_set)
  from this [of "[]"] show ?thesis by (simp add: register_all_def)
qed

lemma activated_or_required_step:
  assumes "activated_or_required extensions a nm ext"
    and "k \<in> set (get_dependencies ext)" and "map_of extensions k = Some e"
  shows "activated_or_required extensions a k e"
proof -
  from assms(3) have ke: "(k, e) \<in> set extensions" by (rule map_of_SomeD)
  then have "k \<in> keys extensions" by (rule in_keys)
  with assms have edge: "(nm, k) \<in> dependency_edges extensions"
    by (auto simp: dependency_edges_def activated_or_required_def)
  from assms(1) consider "check_args_for_activation ext a" "(nm, ext) \<in> set extensions"
    | s es where "(s, es) \<in> set extensions" "check_args_for_activation es a"
        "(s, nm) \<in> (dependency_edges extensions)\<^sup>+"
    by (auto simp: activated_or_required_def)
  then show ?thesis
  proof cases
    case 1
    with edge ke show ?thesis unfolding activated_or_required_def by blast
  next
    case 2
    from 2(3) edge have "(s, k) \<in> (dependency_edges extensions)\<^sup>+"
      by (auto intro: trancl_into_trancl)
    with 2 ke show ?thesis unfolding activated_or_required_def by blast
  qed
qed

lemma dependency_names_iff:
  "k \<in> dependency_names items \<longleftrightarrow> (\<exists>nm ext. (nm, ext) \<in> set items \<and> k \<in> set (get_dependencies ext))"
  by (auto simp: dependency_names_def)

lemma active_dict_origin:
  "\<forall>k e. (k, e) \<in> set (active_dict extensions a) \<longrightarrow> activated_or_required extensions a k e"
  unfolding active_dict_def
proof (rule expand_dependencies_inv)
  from seed_active_subset [of extensions a "[]"]
  show "\<forall>k e. (k, e) \<in> set (seed_active extensions a []) \<longrightarrow>
          activated_or_required extensions a k e"
    by (auto simp: activated_or_required_def)
next
  fix act act' :: "'a ext_dict" and ch
  assume I: "\<forall>k e. (k, e) \<in> set act \<longrightarrow> activated_or_required extensions a k e"
    and scan: "scan_items extensions act (act, False) = (act', ch)"
  from scan_items_appends [OF scan] obtain new where new: "act' = act @ new"
    and ad: "added_by extensions act (dependency_names act) new" by blast
  show "\<forall>k e. (k, e) \<in> set act' \<longrightarrow> activated_or_required extensions a k e"
  proof (intro allI impI)
    fix k e assume "(k, e) \<in> set act'"
    with new consider "(k, e) \<in> set act" | "(k, e) \<in> set new" by auto
    then show "activated_or_required extensions a k e"
    proof cases
      case 1
      with I show ?thesis by blast
    next
      case 2
      with ad have m: "map_of extensions k = Some e" and "k \<in> dependency_names act"
        by (auto simp: added_by_def dest: in_keys)
      then obtain nm ext where "(nm, ext) \<in> set act" "k \<in> set (get_dependencies ext)"
        by (auto simp: dependency_names_iff)
      with I m show ?thesis by (blast intro: activated_or_required_step)
    qed
  qed
qed

lemma active_dict_distinct: "distinct (map fst (active_dict extensions a))"
  unfolding active_dict_def
proof (rule expand_dependencies_inv [where I = "\<lambda>act. distinct (map fst act)"])
  show "distinct (map fst (seed_active extensions a []))"
    by (rule seed_active_distinct) simp
next
  fix act act' :: "'a ext_dict" and ch
  assume d: "distinct (map fst act)"
    and scan: "scan_items extensions act (act, False) = (act', ch)"
  from scan_items_appends [OF scan] obtain new where new: "act' = act @ new"
    and ad: "added_by extensions act (dependency_names act) new" by blast
  from d ad have "distinct (map fst (act @ new))"
    unfolding distinct_keys_append added_by_def by blast
  with new show "distinct (map fst act')" by simp
qed

lemma active_dict_seed:
  assumes "distinct (map fst extensions)" and "(n, e) \<in> set extensions"
    and "check_args_for_activation e a"
  shows "(n, e) \<in> set (active_dict extensions a)"
  unfolding active_dict_def
proof (rule expand_dependencies_inv [where I = "\<lambda>act. (n, e) \<in> set act"])
  from assms show "(n, e) \<in> set (seed_active extensions a [])"
    by (rule seed_active_contains)
next
  fix act act' :: "'a ext_dict" and ch
  assume "(n, e) \<in> set act" and scan: "scan_items extensions act (act, False) = (act', ch)"
  with scan_items_appends [OF scan] show "(n, e) \<in> set act'" by auto
qed

lemma active_dict_closed:
  assumes "(nm, ext) \<in> set (active_dict extensions a)" and "d \<in> set (get_dependencies ext)"
    and "d \<in> keys extensions"
  shows "d \<in> keys (active_dict extensions a)"
proof -
  from assms(1,2) have "d \<in> dependency_names (active_dict extensions a)"
    by (auto simp: dependency_names_iff)
  with assms(3) expand_dependencies_closed [of extensions "seed_active extensions a []"]
  show ?thesis by (auto simp: active_dict_def)
qed

lemma active_dict_closed_pair:
  assumes "distinct (map fst extensions)"
    and "(nm, ext) \<in> set (active_dict extensions a)" and "d \<in> set (get_dependencies ext)"
    and "map_of extensions d = Some x"
  shows "(d, x) \<in> set (active_dict extensions a)"
proof -
  from assms(4) have "d \<in> keys extensions" by (rule map_of_Some_keys)
  from active_dict_closed [OF assms(2,3) this] obtain y where
    y: "(d, y) \<in> set (active_dict extensions a)"
    by (auto simp: keys_def)
  with active_dict_origin have "(d, y) \<in> set extensions"
    by (auto simp: activated_or_required_def)
  with assms(1) have "map_of extensions d = Some y" by simp
  with assms(4) y show ?thesis by simp
qed

lemma get_active_extensions_set:
  assumes "get_active_extensions depth extensions a = Inr r"
  shows "set r = snd ` set (active_dict extensions a)"
proof -
  from assms have "sort_extensions depth (active_dict extensions a) a = Inr r"
    by (simp add: get_active_extensions_def)
  from sort_extensions_mset [OF active_dict_distinct this]
  have "set_mset (mset r) = set_mset (mset (map snd (active_dict extensions a)))" by simp
  then show ?thesis by simp
qed

subsection \<open>The example registries, evaluated\<close>

lemma home_registry_eq:
  "home_registry =
     [(''basic'', BasicExtension), (''user'', MockExtension ''user'' [] []),
      (''home'', MockExtension ''home'' [''user''] [''user''])]"
  by (simp add: home_registry_def register_all_def register_extension_def
      BasicExtension_def MockExtension_def)

lemma home_active_dict:
  "active_dict home_registry home_args =
     [(''basic'', BasicExtension), (''home'', MockExtension ''home'' [''user''] [''user'']),
      (''user'', MockExtension ''user'' [] [])]"
  by (simp add: home_registry_eq active_dict_def expand_dependencies.simps home_args_def
      BasicExtension_def MockExtension_def default_activation_def args_get_def)

lemma home_get_active:
  "get_active_extensions 1000 home_registry home_args =
     Inr [BasicExtension, MockExtension ''user'' [] [],
          MockExtension ''home'' [''user''] [''user'']]"
  unfolding get_active_extensions_def home_active_dict
  by (simp add: sort_extensions_def topological_sort_def BasicExtension_def MockExtension_def
      eval_nat_numeral)

lemma ghost_registry_eq:
  "ghost_registry =
     [(''basic'', BasicExtension), (''main'', MockExtension ''main'' [''ghost''] [])]"
  by (simp add: ghost_registry_def register_all_def register_extension_def
      BasicExtension_def MockExtension_def)

lemma ghost_active_dict:
  "active_dict ghost_registry ghost_args =
     [(''basic'', BasicExtension), (''main'', MockExtension ''main'' [''ghost''] [])]"
  by (simp add: ghost_registry_eq active_dict_def expand_dependencies.simps ghost_args_def
      BasicExtension_def MockExtension_def default_activation_def args_get_def)

lemma map_fst_dict_set_present:
  "map_of d k = Some w \<Longrightarrow> map fst (dict_set d k v) = map fst d"
  by (induction d) (auto split: if_splits)

section \<open>The pipeline: what the traces contain\<close>

lemma then_do_Inl: "then_do (tr, Inl e) f = (tr, Inl e)"
  by (simp add: then_do_def)

lemma then_do_Inr: "then_do (tr, Inr x) f = (tr @ fst (f x), snd (f x))"
  by (simp add: then_do_def split: prod.splits)

lemma then_do_events:
  assumes "\<forall>ev\<in>set (fst m). P ev" and "\<And>x. \<forall>ev\<in>set (fst (f x)). P ev"
  shows "\<forall>ev\<in>set (fst (then_do m f)). P ev"
proof -
  obtain tr r where m: "m = (tr, r)" by (cases m)
  show ?thesis
  proof (cases r)
    case (Inl e)
    with m assms(1) show ?thesis by (simp add: then_do_Inl)
  next
    case (Inr x)
    with m assms(1) assms(2) [of x] show ?thesis by (auto simp: then_do_Inr)
  qed
qed

lemma validate_all_pass:
  "\<forall>ext\<in>set exts. validate_environment ext a = None \<Longrightarrow>
     validate_all exts a = (map (\<lambda>ext. Validate (get_name ext)) exts, Inr ())"
  by (induction exts) (simp_all add: then_do_Inr)

lemma validate_all_abort:
  "\<forall>x\<in>set pre. validate_environment x a = None \<Longrightarrow> validate_environment ext a = Some e \<Longrightarrow>
     validate_all (pre @ ext # post) a =
       (map (\<lambda>x. Validate (get_name x)) (pre @ [ext]), Inl e)"
  by (induction pre) (simp_all add: then_do_Inr)

lemma apply_extensions_no_validate:
  "\<forall>ev\<in>set (fst (apply_extensions exts container a)). \<not> is_validate ev"
proof (induction exts arbitrary: container)
  case Nil
  show ?case by simp
next
  case (Cons ext exts)
  have "\<forall>ev\<in>set (fst (then_do ([SetupContainer (get_name ext)], setup_container ext container a)
          (\<lambda>container. apply_extensions exts container a))). \<not> is_validate ev"
    by (rule then_do_events) (simp_all add: Cons)
  then show ?case by simp
qed

lemma exec_stdout_no_validate:
  "\<forall>ev\<in>set (fst (exec_stdout B container argv)). \<not> is_validate ev"
  unfolding exec_stdout_def by (rule then_do_events) simp_all

lemma with_connection_events:
  assumes "\<forall>ev\<in>set (fst body). P ev" and "P Connect" and "P Disconnect"
  shows "\<forall>ev\<in>set (fst (with_connection B body)). P ev"
  using assms by (cases body) (auto simp: with_connection_def split: option.splits)

lemma base_container_no_validate:
  "\<forall>ev\<in>set (fst (base_container B a)). \<not> is_validate ev"
  by (simp add: base_container_def split: option.splits)

lemma run_container_no_validate:
  "\<forall>ev\<in>set (fst (run_container B active a)). \<not> is_validate ev"
  unfolding run_container_def
proof (rule with_connection_events)
  show "\<forall>ev\<in>set (fst (then_do (base_container B a) (\<lambda>container.
        then_do (apply_extensions active container a) (\<lambda>container.
          if truthy (args_get a ''command'') then
            exec_stdout B container (args_get a ''command'')
          else
            exec_stdout B container echo_no_command)))). \<not> is_validate ev"
  proof (rule then_do_events)
    show "\<forall>ev\<in>set (fst (base_container B a)). \<not> is_validate ev"
      by (rule base_container_no_validate)
  next
    fix c0
    show "\<forall>ev\<in>set (fst (then_do (apply_extensions active c0 a) (\<lambda>container.
          if truthy (args_get a ''command'') then
            exec_stdout B container (args_get a ''command'')
          else
            exec_stdout B container echo_no_command))). \<not> is_validate ev"
      by (rule then_do_events) (simp_all add: apply_extensions_no_validate exec_stdout_no_validate)
  qed
qed simp_all

lemma validate_or_exit_events:
  "\<forall>ev\<in>set (fst (validate_or_exit exts a)). validates_or_prints ev"
  by (induction exts) (auto split: option.splits prod.splits)

lemma print_order_events: "\<forall>ev\<in>set (print_order i exts). validates_or_prints ev"
  by (induction exts arbitrary: i) auto

lemma print_image_and_command_events:
  "\<forall>ev\<in>set (fst (print_image_and_command a)). validates_or_prints ev"
proof (cases "a ''image''")
  case None
  then show ?thesis by (simp add: print_image_and_command_def)
next
  case (Some img)
  have "\<forall>ev\<in>set (fst (then_do ([Print (ImageLine img)], Inr ()) (\<lambda>_.
            if truthy (args_get a ''command'') then
              (case py_join (args_get a ''command'') of
                 Inl e \<Rightarrow> ([], Inl e)
               | Inr s \<Rightarrow> ([Print (CommandLine s)], Inr ()))
            else ([], Inr ())))). validates_or_prints ev"
    by (rule then_do_events) (simp_all split: sum.splits)
  with Some show ?thesis by (simp add: print_image_and_command_def)
qed

lemma cli_dry_run_events:
  "\<forall>ev\<in>set (fst (cli_dry_run active a)). validates_or_prints ev"
  unfolding cli_dry_run_def
proof (rule then_do_events)
  show "\<forall>ev\<in>set (fst ([Print DryRunLine], Inr ())). validates_or_prints ev"
    by simp
next
  fix x :: unit
  show "\<forall>ev\<in>set (fst (then_do (print_image_and_command a) (\<lambda>_.
       (Print OrderHeaderLine # print_order 1 active, Inr 0)))). validates_or_prints ev"
    by (rule then_do_events) (simp_all add: print_image_and_command_events print_order_events)
qed

lemma main_py_dry_run_events:
  "\<forall>ev\<in>set (fst (main_py_dry_run a)). validates_or_prints ev"
  unfolding main_py_dry_run_def
proof (rule then_do_events)
  show "\<forall>ev\<in>set (fst ([Print DryRunLine], Inr ())). validates_or_prints ev"
    by simp
next
  fix x :: unit
  show "\<forall>ev\<in>set (fst (then_do (print_image_and_command a) (\<lambda>_. ([], Inr 0)))).
          validates_or_prints ev"
    by (rule then_do_events) (simp_all add: print_image_and_command_events)
qed

lemma cli_dry_run_exit:
  assumes "cli_dry_run active a = (tr, Inr code)"
  shows "\<exists>pre. tr = pre @ Print OrderHeaderLine # print_order 1 active"
proof -
  obtain tr1 r1 where p: "print_image_and_command a = (tr1, r1)"
    by (cases "print_image_and_command a")
  show ?thesis
  proof (cases r1)
    case (Inl e)
    with p assms show ?thesis by (simp add: cli_dry_run_def then_do_Inr then_do_Inl)
  next
    case (Inr u)
    with p assms have "tr = (Print DryRunLine # tr1) @
        Print OrderHeaderLine # print_order 1 active"
      by (auto simp: cli_dry_run_def then_do_Inr)
    then show ?thesis ..
  qed
qed

lemma cli_main_dry_run:
  assumes "truthy (args_get a ''dry_run'')"
    and "get_active_extensions depth (register_all exts) a = Inr active"
  shows "cli_main B depth exts a =
     (case validate_or_exit active a of
        (tr, Some code) \<Rightarrow> (Print (ActiveExtensionsLine (map get_name active)) # tr, Inr code)
      | (tr, None) \<Rightarrow>
          (Print (ActiveExtensionsLine (map get_name active)) # tr @ fst (cli_dry_run active a),
           snd (cli_dry_run active a)))"
  using assms by (simp add: cli_main_def then_do_Inr split: prod.splits option.splits)

lemma main_py_main_dry_run:
  assumes "truthy (args_get a ''dry_run'')"
    and "get_active_extensions depth (register_all exts) a = Inr active"
  shows "main_py_main B depth exts a =
     (case validate_or_exit active a of
        (tr, Some code) \<Rightarrow> (Print (ActiveExtensionsLine (map get_name active)) # tr, Inr code)
      | (tr, None) \<Rightarrow>
          (Print (ActiveExtensionsLine (map get_name active)) # tr @ fst (main_py_dry_run a),
           snd (main_py_dry_run a)))"
  using assms by (simp add: main_py_main_def then_do_Inr split: prod.splits option.splits)

lemma validate_all_events:
  "\<forall>ev\<in>set (fst (validate_all exts a)). validates_or_prints ev"
proof (induction exts)
  case Nil
  show ?case by simp
next
  case (Cons ext exts)
  show ?case
  proof (cases "validate_environment ext a")
    case None
    with Cons show ?thesis by (simp add: then_do_Inr)
  next
    case (Some e)
    then show ?thesis by simp
  qed
qed

lemma core_main_dry_run:
  fixes B :: "'c backend"
  assumes "truthy (args_get a ''dry_run'')"
    and "get_active_extensions depth (register_all [BasicExtension :: 'c extension]) a =
           Inr active"
  shows "core_main B depth a =
     (Print (ActiveExtensionsLine (map get_name active)) #
        fst (then_do (validate_all active a) (\<lambda>_. ([Print DryRunLine], Inr ()))),
      snd (then_do (validate_all active a) (\<lambda>_. ([Print DryRunLine], Inr ()))))"
  using assms by (simp add: core_main_def then_do_Inr)

lemma core_main_dry_run_events:
  "\<forall>ev\<in>set (fst (then_do (validate_all active a) (\<lambda>_. ([Print DryRunLine], Inr ())))).
     validates_or_prints ev"
  by (rule then_do_events) (simp_all add: validate_all_events)

lemma failing_get_active:
  "get_active_extensions 1000 failing_registry failing_args =
     Inr [BasicExtension, FailingExtension ''bad'', MockExtension ''user'' [] []]"
  by (simp add: failing_registry_def register_all_def register_extension_def
      get_active_extensions_def active_dict_def expand_dependencies.simps
      sort_extensions_def topological_sort_def failing_args_def eval_nat_numeral
      BasicExtension_def MockExtension_def FailingExtension_def default_activation_def args_get_def)

lemma dry_run_get_active:
  "get_active_extensions 1000 (register_all home_extensions) dry_run_args =
     Inr [BasicExtension, MockExtension ''user'' [] [],
          MockExtension ''home'' [''user''] [''user'']]"
  by (simp add: home_extensions_def register_all_def register_extension_def
      get_active_extensions_def active_dict_def expand_dependencies.simps
      sort_extensions_def topological_sort_def dry_run_args_def eval_nat_numeral
      BasicExtension_def MockExtension_def default_activation_def args_get_def)

lemma no_command_get_active:
  "get_active_extensions 1000 (register_all [BasicExtension :: string list extension])
       no_command_args = Inr [BasicExtension]"
  by (simp add: register_all_def register_extension_def
      get_active_extensions_def active_dict_def expand_dependencies.simps
      sort_extensions_def topological_sort_def BasicExtension_def eval_nat_numeral)

section \<open>Claims about the scheduler\<close>



text \<open>
  C3, as stated, fails: the search is a recursion, one nested call for every hint that is
  followed. In a chain of 1001 active extensions whose last two hint each other, with 1000
  nested calls left (the whole default recursion limit of the interpreter), the scheduler
  raises \<open>RecursionError\<close>, which names nobody, before it reaches the cycle.
\<close>

theorem mutual_hints_counterexample:
  "map_of (hint_chain 1000 :: unit ext_dict) (chain_name 999) =
     Some (MockExtension (chain_name 999) [] [chain_name 1000]) \<and>
   map_of (hint_chain 1000 :: unit ext_dict) (chain_name 1000) =
     Some (MockExtension (chain_name 1000) [] [chain_name 999]) \<and>
   sort_extensions 1000 (hint_chain 1000 :: unit ext_dict) Map.empty = Inl RecursionError"
proof -
  have "map_of (hint_chain 1000 :: unit ext_dict) (chain_name 999) =
     Some (MockExtension (chain_name 999) [] [chain_name (Suc 999)])"
    by (rule map_of_hint_chain_inner) simp
  moreover have "map_of (hint_chain 1000 :: unit ext_dict) (chain_name 1000) =
     Some (MockExtension (chain_name 1000) [] [chain_name (1000 - 1)])"
    by (rule map_of_hint_chain_last)
  moreover have "sort_extensions 1000 (hint_chain 1000 :: unit ext_dict) Map.empty =
      Inl RecursionError"
    by (rule sort_extensions_hint_chain) simp
  ultimately show ?thesis by simp
qed

text \<open>
  C3, amended: if two active extensions hint each other, the scheduler terminates and
  fails; it never returns a list, so neither hint is dropped. When the active set has fewer
  entries than the interpreter still allows nested calls, the failure is the
  \<open>ValueError\<close> of a circular dependency, whose message names an extension that lies on
  a cycle of the active hint graph; otherwise it is that error or a \<open>RecursionError\<close>.
\<close>

theorem mutual_hints_circular_error:
  assumes "map_of items A = Some eA" and "map_of items B = Some eB"
    and "B \<in> set (get_load_order_hints eA)" and "A \<in> set (get_load_order_hints eB)"
  shows "(\<exists>e. sort_extensions depth items a = Inl e \<and>
            (e = RecursionError \<or>
             (\<exists>c. e = ValueError (''Circular dependency detected involving '' @ c) \<and>
                  (c, c) \<in> (hint_edges items)\<^sup>+))) \<and>
         (length items < depth \<longrightarrow>
            (\<exists>c. sort_extensions depth items a =
                   Inl (ValueError (''Circular dependency detected involving '' @ c)) \<and>
                 (c, c) \<in> (hint_edges items)\<^sup>+))"
proof -
  from assms have "(A, B) \<in> hint_edges items" "(B, A) \<in> hint_edges items"
    by (auto simp: hint_edges_def dest: map_of_Some_keys)
  then have "(A, A) \<in> (hint_edges items)\<^sup>+" by (auto intro: trancl_into_trancl)
  then have cyc: "\<not> acyclic (hint_edges items)" by (auto simp: acyclic_def)
  obtain e where e: "sort_extensions depth items a = Inl e"
  proof (cases "sort_extensions depth items a")
    case (Inl e)
    then show ?thesis by (rule that)
  next
    case (Inr r)
    with sort_extensions_success_acyclic cyc show ?thesis by blast
  qed
  from sort_extensions_error [OF e]
  have kinds: "e = RecursionError \<or>
      (\<exists>c. e = ValueError (''Circular dependency detected involving '' @ c) \<and>
           (c, c) \<in> (hint_edges items)\<^sup>+)"
    by (simp add: circular_error_def)
  have "\<exists>c. sort_extensions depth items a =
             Inl (ValueError (''Circular dependency detected involving '' @ c)) \<and>
           (c, c) \<in> (hint_edges items)\<^sup>+"
    if "length items < depth"
    using sort_extensions_enough_depth [OF that, of a] e kinds by auto
  with e kinds show ?thesis by blast
qed

theorem mutual_hints_circular_error_witness:
  "map_of cycle_items ''a'' = Some (MockExtension ''a'' [] [''b'']) \<and>
   map_of cycle_items ''b'' = Some (MockExtension ''b'' [] [''a'']) \<and>
   length cycle_items < 1000 \<and>
   (\<exists>c. sort_extensions 1000 cycle_items Map.empty =
          Inl (ValueError (''Circular dependency detected involving '' @ c)) \<and>
        (c, c) \<in> (hint_edges cycle_items)\<^sup>+) \<and>
   sort_extensions 1000 cycle_items Map.empty =
     Inl (ValueError ''Circular dependency detected involving a'')"
proof -
  have a: "map_of cycle_items ''a'' = Some (MockExtension ''a'' [] [''b''])"
    and b: "map_of cycle_items ''b'' = Some (MockExtension ''b'' [] [''a''])"
    by (simp_all add: cycle_items_def)
  have ha: "''b'' \<in> set (get_load_order_hints (MockExtension ''a'' [] [''b''] :: unit extension))"
    and hb: "''a'' \<in> set (get_load_order_hints (MockExtension ''b'' [] [''a''] :: unit extension))"
    by (simp_all add: MockExtension_def)
  have len: "length cycle_items < 1000" by (simp add: cycle_items_def)
  have v: "sort_extensions 1000 cycle_items Map.empty =
     Inl (ValueError ''Circular dependency detected involving a'')"
    by (simp add: sort_extensions_def topological_sort_def cycle_items_def MockExtension_def
        eval_nat_numeral)
  from mutual_hints_circular_error [OF a b ha hb, of 1000 Map.empty] len
  have "\<exists>c. sort_extensions 1000 cycle_items Map.empty =
          Inl (ValueError (''Circular dependency detected involving '' @ c)) \<and>
        (c, c) \<in> (hint_edges cycle_items)\<^sup>+"
    by blast
  with a b len v show ?thesis by blast
qed

text \<open>
  C9: when the scheduler succeeds on a dictionary (distinct keys), the returned list is a
  permutation of the dictionary's values: every active extension occurs as often as it
  does among the values, and nothing else occurs.
\<close>

theorem sort_extensions_permutation:
  assumes "distinct (map fst items)" and "sort_extensions depth items a = Inr r"
  shows "mset r = mset (map snd items)"
  using assms by (rule sort_extensions_mset)

theorem sort_extensions_permutation_witness:
  "distinct (map fst home_items) \<and>
   sort_extensions 1000 home_items Map.empty =
     Inr [BasicExtension, MockExtension ''user'' [] [],
          MockExtension ''home'' [''user''] [''user'']] \<and>
   mset [BasicExtension, MockExtension ''user'' [] [],
         MockExtension ''home'' [''user''] [''user'' :: string] :: unit extension] =
     mset (map snd home_items)"
proof -
  have d: "distinct (map fst home_items)" by (simp add: home_items_def)
  have v: "sort_extensions 1000 home_items Map.empty =
     Inr [BasicExtension, MockExtension ''user'' [] [],
          MockExtension ''home'' [''user''] [''user'']]"
    by (simp add: sort_extensions_def topological_sort_def home_items_def MockExtension_def
        BasicExtension_def eval_nat_numeral)
  from sort_extensions_permutation [OF d v] d v show ?thesis by blast
qed

section \<open>Claims about the registry and the resolver\<close>

text \<open>
  C7, as stated, fails: registering \<open>test\<close> twice raises nothing, and the registry then
  holds the second extension, not the first.
\<close>

theorem register_duplicate_counterexample:
  "map_of (register_extension
             (register_extension [] (MockExtension ''test'' [] [] :: unit extension))
             (MockExtension ''test'' [''other''] [])) ''test'' =
     Some (MockExtension ''test'' [''other''] []) \<and>
   MockExtension ''test'' [''other''] [] \<noteq> (MockExtension ''test'' [] [] :: unit extension)"
  by (simp add: register_extension_def MockExtension_def)

text \<open>
  C7, amended: registering an extension under a name that is already present does not
  fail. It replaces the earlier registration: the name then maps to the new extension,
  the order of the keys is unchanged, and so is every other entry.
\<close>

theorem register_extension_overwrites:
  assumes "map_of extensions (get_name extension) = Some first"
  shows "map_of (register_extension extensions extension) (get_name extension) = Some extension \<and>
         map fst (register_extension extensions extension) = map fst extensions \<and>
         (\<forall>k. k \<noteq> get_name extension \<longrightarrow>
            map_of (register_extension extensions extension) k = map_of extensions k)"
  using assms
  by (simp add: register_extension_def map_of_dict_set map_fst_dict_set_present)

theorem register_extension_overwrites_witness:
  "map_of (register_extension [] (MockExtension ''test'' [] [] :: unit extension))
      (get_name (MockExtension ''test'' [''other''] [] :: unit extension)) =
     Some (MockExtension ''test'' [] []) \<and>
   map_of (register_extension
             (register_extension [] (MockExtension ''test'' [] [] :: unit extension))
             (MockExtension ''test'' [''other''] []))
      (get_name (MockExtension ''test'' [''other''] [] :: unit extension)) =
     Some (MockExtension ''test'' [''other''] []) \<and>
   map fst (register_extension
             (register_extension [] (MockExtension ''test'' [] [] :: unit extension))
             (MockExtension ''test'' [''other''] [])) = [''test'']"
proof -
  have p: "map_of (register_extension [] (MockExtension ''test'' [] [] :: unit extension))
      (get_name (MockExtension ''test'' [''other''] [] :: unit extension)) =
     Some (MockExtension ''test'' [] [])"
    by (simp add: register_extension_def MockExtension_def)
  have k: "map fst (register_extension [] (MockExtension ''test'' [] [] :: unit extension)) = [''test'']"
    by (simp add: register_extension_def MockExtension_def)
  from register_extension_overwrites [OF p] p k show ?thesis by simp
qed

text \<open>
  C2: for every registry (a dictionary, so with distinct keys) and every option set, the
  active dictionary contains every registered extension whose activation hook accepts the
  options, and it is closed under dependencies: each dependency name of an active extension
  that is registered is active, with the registry's extension. The same holds for the list
  that \<open>get_active_extensions\<close> returns when the sort succeeds.
\<close>

theorem active_set_closed:
  assumes "distinct (map fst extensions)"
  shows "(\<forall>(nm, ext)\<in>set extensions. check_args_for_activation ext a \<longrightarrow>
            (nm, ext) \<in> set (active_dict extensions a)) \<and>
         (\<forall>(nm, ext)\<in>set (active_dict extensions a). \<forall>d\<in>set (get_dependencies ext).
            \<forall>x. map_of extensions d = Some x \<longrightarrow> (d, x) \<in> set (active_dict extensions a)) \<and>
         (\<forall>r. get_active_extensions depth extensions a = Inr r \<longrightarrow>
            (\<forall>(nm, ext)\<in>set extensions. check_args_for_activation ext a \<longrightarrow> ext \<in> set r) \<and>
            (\<forall>ext\<in>set r. \<forall>d\<in>set (get_dependencies ext).
               \<forall>x. map_of extensions d = Some x \<longrightarrow> x \<in> set r))"
proof (intro conjI allI impI ballI)
  fix p assume p: "p \<in> set extensions"
  obtain nm ext where "p = (nm, ext)" by (cases p)
  with p active_dict_seed [OF assms, of nm ext a]
  show "case p of (nm, ext) \<Rightarrow> check_args_for_activation ext a \<longrightarrow>
      (nm, ext) \<in> set (active_dict extensions a)"
    by simp
next
  fix p assume p: "p \<in> set (active_dict extensions a)"
  obtain nm ext where "p = (nm, ext)" by (cases p)
  with p active_dict_closed_pair [OF assms, of nm ext a]
  show "case p of (nm, ext) \<Rightarrow> \<forall>d\<in>set (get_dependencies ext).
      \<forall>x. map_of extensions d = Some x \<longrightarrow> (d, x) \<in> set (active_dict extensions a)"
    by simp
next
  fix r p assume r: "get_active_extensions depth extensions a = Inr r"
    and p: "p \<in> set extensions"
  obtain nm ext where pe: "p = (nm, ext)" by (cases p)
  have "ext \<in> set r" if "check_args_for_activation ext a"
  proof -
    from active_dict_seed [OF assms, of nm ext a] p pe that
    have "(nm, ext) \<in> set (active_dict extensions a)" by simp
    then have "ext \<in> snd ` set (active_dict extensions a)" by force
    with get_active_extensions_set [OF r] show ?thesis by simp
  qed
  with pe show "case p of (nm, ext) \<Rightarrow> check_args_for_activation ext a \<longrightarrow> ext \<in> set r"
    by simp
next
  fix r ext d x assume r: "get_active_extensions depth extensions a = Inr r"
    and "ext \<in> set r" and d: "d \<in> set (get_dependencies ext)"
    and x: "map_of extensions d = Some x"
  with get_active_extensions_set [OF r] obtain nm where
    "(nm, ext) \<in> set (active_dict extensions a)" by auto
  from active_dict_closed_pair [OF assms this d x]
  have "x \<in> snd ` set (active_dict extensions a)" by force
  with get_active_extensions_set [OF r] show "x \<in> set r" by simp
qed

theorem active_set_closed_witness:
  "distinct (map fst home_registry) \<and>
   check_args_for_activation (MockExtension ''home'' [''user''] [''user''] :: unit extension) home_args \<and>
   \<not> check_args_for_activation (MockExtension ''user'' [] [] :: unit extension) home_args \<and>
   (''home'', MockExtension ''home'' [''user''] [''user'']) \<in> set (active_dict home_registry home_args) \<and>
   (''user'', MockExtension ''user'' [] []) \<in> set (active_dict home_registry home_args) \<and>
   get_active_extensions 1000 home_registry home_args =
     Inr [BasicExtension, MockExtension ''user'' [] [],
          MockExtension ''home'' [''user''] [''user'']]"
proof -
  have d: "distinct (map fst home_registry)" by (simp add: home_registry_eq)
  have c: "check_args_for_activation (MockExtension ''home'' [''user''] [''user''] :: unit extension) home_args"
    and n: "\<not> check_args_for_activation (MockExtension ''user'' [] [] :: unit extension) home_args"
    by (simp_all add: MockExtension_def default_activation_def args_get_def home_args_def)
  have m: "(''home'', MockExtension ''home'' [''user''] [''user'']) \<in> set home_registry"
    by (simp add: home_registry_eq)
  have u: "map_of home_registry ''user'' = Some (MockExtension ''user'' [] [])"
    by (simp add: home_registry_eq)
  have g: "''user'' \<in> set (get_dependencies (MockExtension ''home'' [''user''] [''user''] :: unit extension))"
    by (simp add: MockExtension_def)
  from active_set_closed [OF d, of home_args] m c
  have 1: "(''home'', MockExtension ''home'' [''user''] [''user'']) \<in> set (active_dict home_registry home_args)"
    by blast
  from active_set_closed [OF d, of home_args] 1 g u
  have 2: "(''user'', MockExtension ''user'' [] []) \<in> set (active_dict home_registry home_args)"
    by blast
  from d c n 1 2 home_get_active show ?thesis by blast
qed

text \<open>
  C8: a dependency name that is absent from the registry is ignored by the expansion: the
  loop over the dependency names passes over it without changing the state, and the name is
  not a key of the active dictionary. The expansion has no failing branch.
\<close>

theorem unknown_dependency_ignored:
  assumes "map_of extensions d = None"
  shows "map_of (active_dict extensions a) d = None \<and>
         (\<forall>deps st. add_dependencies extensions (d # deps) st =
                     add_dependencies extensions deps st)"
proof
  show "map_of (active_dict extensions a) d = None"
  proof (cases "map_of (active_dict extensions a) d")
    case None
    then show ?thesis .
  next
    case (Some e)
    then have "(d, e) \<in> set (active_dict extensions a)" by (rule map_of_SomeD)
    with active_dict_origin have "(d, e) \<in> set extensions"
      by (auto simp: activated_or_required_def)
    then have "d \<in> keys extensions" by (rule in_keys)
    with assms show ?thesis by (simp add: map_of_None_iff_keys)
  qed
next
  show "\<forall>deps st. add_dependencies extensions (d # deps) st =
                   add_dependencies extensions deps st"
  proof (intro allI)
    fix deps and st :: "'a ext_dict \<times> bool"
    obtain active changed where "st = (active, changed)" by (cases st)
    with assms show "add_dependencies extensions (d # deps) st =
                     add_dependencies extensions deps st"
      by simp
  qed
qed

theorem unknown_dependency_ignored_witness:
  "map_of ghost_registry ''ghost'' = None \<and>
   ''ghost'' \<in> set (get_dependencies (MockExtension ''main'' [''ghost''] [] :: unit extension)) \<and>
   (''main'', MockExtension ''main'' [''ghost''] []) \<in> set (active_dict ghost_registry ghost_args) \<and>
   map_of (active_dict ghost_registry ghost_args) ''ghost'' = None \<and>
   add_dependencies ghost_registry [''ghost''] (active_dict ghost_registry ghost_args, False) =
     (active_dict ghost_registry ghost_args, False)"
proof -
  have h: "map_of ghost_registry ''ghost'' = None" by (simp add: ghost_registry_eq)
  have g: "''ghost'' \<in> set (get_dependencies (MockExtension ''main'' [''ghost''] [] :: unit extension))"
    by (simp add: MockExtension_def)
  have m: "(''main'', MockExtension ''main'' [''ghost''] []) \<in> set (active_dict ghost_registry ghost_args)"
    by (simp add: ghost_active_dict)
  from unknown_dependency_ignored [OF h, of ghost_args]
  have n: "map_of (active_dict ghost_registry ghost_args) ''ghost'' = None"
    and "add_dependencies ghost_registry [''ghost''] (active_dict ghost_registry ghost_args, False) =
         add_dependencies ghost_registry [] (active_dict ghost_registry ghost_args, False)"
    by blast+
  then have "add_dependencies ghost_registry [''ghost''] (active_dict ghost_registry ghost_args, False) =
     (active_dict ghost_registry ghost_args, False)" by simp
  with h g m n show ?thesis by blast
qed

text \<open>
  C10: the resolver adds nothing beyond the least closure: every entry of the active
  dictionary, and every extension of the returned list, is an entry of the registry that is
  activated by its own hook or is reached, along registered dependency names, from an entry
  that is.
\<close>

theorem active_within_least_closure:
  "(\<forall>(k, e)\<in>set (active_dict extensions a). activated_or_required extensions a k e) \<and>
   (\<forall>r. get_active_extensions depth extensions a = Inr r \<longrightarrow>
      (\<forall>e\<in>set r. \<exists>k. activated_or_required extensions a k e))"
proof (intro conjI allI impI ballI)
  fix p assume p: "p \<in> set (active_dict extensions a)"
  obtain k e where "p = (k, e)" by (cases p)
  with p active_dict_origin [of extensions a]
  show "case p of (k, e) \<Rightarrow> activated_or_required extensions a k e" by simp
next
  fix r e assume r: "get_active_extensions depth extensions a = Inr r" and "e \<in> set r"
  with get_active_extensions_set [OF r] obtain k where
    "(k, e) \<in> set (active_dict extensions a)" by auto
  with active_dict_origin show "\<exists>k. activated_or_required extensions a k e" by blast
qed

theorem active_within_least_closure_witness:
  "(''user'', MockExtension ''user'' [] []) \<in> set (active_dict home_registry home_args) \<and>
   activated_or_required home_registry home_args ''user'' (MockExtension ''user'' [] []) \<and>
   \<not> check_args_for_activation (MockExtension ''user'' [] [] :: unit extension) home_args \<and>
   get_active_extensions 1000 home_registry home_args =
     Inr [BasicExtension, MockExtension ''user'' [] [],
          MockExtension ''home'' [''user''] [''user'']] \<and>
   (\<exists>k. activated_or_required home_registry home_args k
          (MockExtension ''home'' [''user''] [''user'']))"
proof -
  have u: "(''user'', MockExtension ''user'' [] []) \<in> set (active_dict home_registry home_args)"
    by (simp add: home_active_dict)
  have n: "\<not> check_args_for_activation (MockExtension ''user'' [] [] :: unit extension) home_args"
    by (simp add: MockExtension_def default_activation_def args_get_def home_args_def)
  have h: "MockExtension ''home'' [''user''] [''user''] \<in>
           set [BasicExtension, MockExtension ''user'' [] [],
                MockExtension ''home'' [''user''] [''user''] :: unit extension]"
    by simp
  from active_within_least_closure [of home_registry home_args] u
  have 1: "activated_or_required home_registry home_args ''user'' (MockExtension ''user'' [] [])"
    by blast
  from active_within_least_closure [of home_registry home_args] home_get_active h
  have 2: "\<exists>k. activated_or_required home_registry home_args k
          (MockExtension ''home'' [''user''] [''user''])"
    by blast
  from u 1 n home_get_active 2 show ?thesis by blast
qed

section \<open>Claims about the pipeline runner and the entry points\<close>

text \<open>
  C4: \<open>run\<close> calls the validation hook of every active extension, in list order, before
  anything else: when every validation passes, the trace starts with the validations of
  the whole list and no validation follows. When a validation raises, the run ends there
  with that exception: the trace holds the validations up to the failing one and nothing
  else, so no later validation, no mutation and no call into the backend.
\<close>

theorem run_validates_before_mutating:
  assumes "get_active_extensions depth extensions a = Inr active"
  shows "\<exists>tr r. run B depth extensions a = (tr, r) \<and>
           ((\<forall>ext\<in>set active. validate_environment ext a = None) \<longrightarrow>
              (\<exists>rest. tr = map (\<lambda>ext. Validate (get_name ext)) active @ rest \<and>
                      (\<forall>ev\<in>set rest. \<not> is_validate ev))) \<and>
           (\<forall>pre ext post e.
              active = pre @ ext # post \<and> (\<forall>x\<in>set pre. validate_environment x a = None) \<and>
              validate_environment ext a = Some e \<longrightarrow>
              tr = map (\<lambda>x. Validate (get_name x)) (pre @ [ext]) \<and> r = Inl e)"
proof -
  let ?res = "then_do (validate_all active a) (\<lambda>_. run_container B active a)"
  from assms have run: "run B depth extensions a = (fst ?res, snd ?res)"
    by (simp add: run_def)
  have pass: "\<exists>rest. fst ?res = map (\<lambda>ext. Validate (get_name ext)) active @ rest \<and>
                      (\<forall>ev\<in>set rest. \<not> is_validate ev)"
    if "\<forall>ext\<in>set active. validate_environment ext a = None"
  proof -
    from validate_all_pass [OF that]
    have "fst ?res = map (\<lambda>ext. Validate (get_name ext)) active @ fst (run_container B active a)"
      by (simp add: then_do_Inr)
    with run_container_no_validate [of B active a] show ?thesis by blast
  qed
  have abort: "fst ?res = map (\<lambda>x. Validate (get_name x)) (pre @ [ext]) \<and> snd ?res = Inl e"
    if "active = pre @ ext # post" "\<forall>x\<in>set pre. validate_environment x a = None"
      "validate_environment ext a = Some e" for pre ext post e
    using validate_all_abort [OF that(2,3), of post] that(1) by (simp add: then_do_Inl)
  from run pass abort show ?thesis by blast
qed

theorem run_validates_before_mutating_witness:
  "get_active_extensions 1000 failing_registry failing_args =
     Inr [BasicExtension, FailingExtension ''bad'', MockExtension ''user'' [] []] \<and>
   validate_environment (BasicExtension :: string list extension) failing_args = None \<and>
   validate_environment (FailingExtension ''bad'' :: string list extension) failing_args =
     Some (Raised ''missing'') \<and>
   run ok_backend 1000 failing_registry failing_args =
     ([Validate ''basic'', Validate ''bad''], Inl (Raised ''missing''))"
proof -
  let ?bad = "FailingExtension ''bad'' :: string list extension"
  let ?user = "MockExtension ''user'' [] [] :: string list extension"
  have v1: "validate_environment (BasicExtension :: string list extension) failing_args = None"
    by (simp add: BasicExtension_def)
  have v2: "validate_environment ?bad failing_args = Some (Raised ''missing'')"
    by (simp add: FailingExtension_def)
  from run_validates_before_mutating [OF failing_get_active, of ok_backend]
  obtain tr r where run: "run ok_backend 1000 failing_registry failing_args = (tr, r)"
    and abort: "\<forall>pre ext post e.
        [BasicExtension, ?bad, ?user] = pre @ ext # post \<and>
        (\<forall>x\<in>set pre. validate_environment x failing_args = None) \<and>
        validate_environment ext failing_args = Some e \<longrightarrow>
        tr = map (\<lambda>x. Validate (get_name x)) (pre @ [ext]) \<and> r = Inl e"
    by blast
  have "[BasicExtension, ?bad, ?user] = [BasicExtension] @ ?bad # [?user] \<and>
        (\<forall>x\<in>set [BasicExtension :: string list extension].
            validate_environment x failing_args = None) \<and>
        validate_environment ?bad failing_args = Some (Raised ''missing'')"
    using v1 v2 by simp
  with abort have "tr = map (\<lambda>x. Validate (get_name x)) ([BasicExtension] @ [?bad]) \<and>
      r = Inl (Raised ''missing'')"
    by blast
  then have "tr = [Validate ''basic'', Validate ''bad''] \<and> r = Inl (Raised ''missing'')"
    by (simp add: BasicExtension_def FailingExtension_def MockExtension_def)
  with run failing_get_active v1 v2 show ?thesis by simp
qed

text \<open>
  C5: with the dry-run flag set, \<open>main\<close> of \<open>cli.py\<close>, of \<open>main.py\<close> and of
  \<open>core.py\<close> return, and their traces hold validations and printed lines only: no
  mutation hook is called, and the backend is not called at all. When the resolution succeeds, the first
  line printed is the resolved order of the active extensions; \<open>cli.py\<close>, when it exits
  with \<open>0\<close>, ends with the numbered list of that order.
\<close>

theorem dry_run_only_reports:
  fixes B :: "'c backend"
  assumes "truthy (args_get a ''dry_run'')"
  shows "(\<exists>tr r. cli_main B depth exts a = (tr, r) \<and> (\<forall>ev\<in>set tr. validates_or_prints ev) \<and>
            (\<forall>active. get_active_extensions depth (register_all exts) a = Inr active \<longrightarrow>
               (\<exists>rest. tr = Print (ActiveExtensionsLine (map get_name active)) # rest) \<and>
               (r = Inr 0 \<longrightarrow>
                  (\<exists>pre. tr = pre @ Print OrderHeaderLine # print_order 1 active)))) \<and>
         (\<exists>tr r. main_py_main B depth exts a = (tr, r) \<and>
            (\<forall>ev\<in>set tr. validates_or_prints ev) \<and>
            (\<forall>active. get_active_extensions depth (register_all exts) a = Inr active \<longrightarrow>
               (\<exists>rest. tr = Print (ActiveExtensionsLine (map get_name active)) # rest))) \<and>
         (\<exists>tr r. core_main B depth a = (tr, r) \<and> (\<forall>ev\<in>set tr. validates_or_prints ev) \<and>
            (\<forall>active. get_active_extensions depth (register_all [BasicExtension :: 'c extension]) a =
                 Inr active \<longrightarrow>
               (\<exists>rest. tr = Print (ActiveExtensionsLine (map get_name active)) # rest)))"
proof (intro conjI)
  have "(\<exists>tr r. cli_main B depth exts a = (tr, r) \<and> (\<forall>ev\<in>set tr. validates_or_prints ev) \<and>
            (\<forall>active. get_active_extensions depth (register_all exts) a = Inr active \<longrightarrow>
               (\<exists>rest. tr = Print (ActiveExtensionsLine (map get_name active)) # rest) \<and>
               (r = Inr 0 \<longrightarrow>
                  (\<exists>pre. tr = pre @ Print OrderHeaderLine # print_order 1 active)))) \<and>
         (\<exists>tr r. main_py_main B depth exts a = (tr, r) \<and>
            (\<forall>ev\<in>set tr. validates_or_prints ev) \<and>
            (\<forall>active. get_active_extensions depth (register_all exts) a = Inr active \<longrightarrow>
               (\<exists>rest. tr = Print (ActiveExtensionsLine (map get_name active)) # rest)))"
  proof (cases "get_active_extensions depth (register_all exts) a")
    case (Inl e)
    then show ?thesis by (simp add: cli_main_def main_py_main_def)
  next
    case (Inr active)
    then have ga: "get_active_extensions depth (register_all exts) a = Inr active" .
    obtain tr code where v: "validate_or_exit active a = (tr, code)"
      by (cases "validate_or_exit active a")
    from validate_or_exit_events [of active a] v
    have trv: "\<forall>ev\<in>set tr. validates_or_prints ev" by simp
    let ?shown = "Print (ActiveExtensionsLine (map get_name active))"
    show ?thesis
    proof (cases code)
      case (Some c)
      have c1: "c = 1" using v Some
        by (induction active arbitrary: tr) (auto split: option.splits prod.splits)
      from cli_main_dry_run [OF assms ga, of B] main_py_main_dry_run [OF assms ga, of B]
        v Some trv ga c1
      show ?thesis by simp
    next
      case None
      obtain trc rc where c: "cli_dry_run active a = (trc, rc)"
        by (cases "cli_dry_run active a")
      obtain trm rm where m: "main_py_dry_run a = (trm, rm)"
        by (cases "main_py_dry_run a")
      from cli_dry_run_events [of active a] c have ce: "\<forall>ev\<in>set trc. validates_or_prints ev"
        by simp
      from main_py_dry_run_events [of a] m have me: "\<forall>ev\<in>set trm. validates_or_prints ev"
        by simp
      have ex: "\<exists>pre. ?shown # tr @ trc = pre @ Print OrderHeaderLine # print_order 1 active"
        if "rc = Inr 0"
      proof -
        from cli_dry_run_exit [of active a trc 0] c that obtain pre where
          "trc = pre @ Print OrderHeaderLine # print_order 1 active" by auto
        then have "?shown # tr @ trc = (?shown # tr @ pre) @
            Print OrderHeaderLine # print_order 1 active" by simp
        then show ?thesis ..
      qed
      from cli_main_dry_run [OF assms ga, of B] main_py_main_dry_run [OF assms ga, of B]
        v None trv ga c m ce me ex
      show ?thesis by auto
    qed
  qed
  then show "\<exists>tr r. cli_main B depth exts a = (tr, r) \<and>
            (\<forall>ev\<in>set tr. validates_or_prints ev) \<and>
            (\<forall>active. get_active_extensions depth (register_all exts) a = Inr active \<longrightarrow>
               (\<exists>rest. tr = Print (ActiveExtensionsLine (map get_name active)) # rest) \<and>
               (r = Inr 0 \<longrightarrow>
                  (\<exists>pre. tr = pre @ Print OrderHeaderLine # print_order 1 active)))"
    and "\<exists>tr r. main_py_main B depth exts a = (tr, r) \<and>
            (\<forall>ev\<in>set tr. validates_or_prints ev) \<and>
            (\<forall>active. get_active_extensions depth (register_all exts) a = Inr active \<longrightarrow>
               (\<exists>rest. tr = Print (ActiveExtensionsLine (map get_name active)) # rest))"
    by blast+
next
  show "\<exists>tr r. core_main B depth a = (tr, r) \<and> (\<forall>ev\<in>set tr. validates_or_prints ev) \<and>
            (\<forall>active. get_active_extensions depth (register_all [BasicExtension :: 'c extension]) a =
                 Inr active \<longrightarrow>
               (\<exists>rest. tr = Print (ActiveExtensionsLine (map get_name active)) # rest))"
  proof (cases "get_active_extensions depth (register_all [BasicExtension :: 'c extension]) a")
    case (Inl e)
    then show ?thesis by (simp add: core_main_def)
  next
    case (Inr active)
    from core_main_dry_run [OF assms Inr, of B] core_main_dry_run_events [of active a] Inr
    show ?thesis by simp
  qed
qed

theorem dry_run_only_reports_witness:
  "truthy (args_get dry_run_args ''dry_run'') \<and>
   (\<exists>tr r rest. cli_main ok_backend 1000 home_extensions dry_run_args = (tr, r) \<and>
       tr = Print (ActiveExtensionsLine [''basic'', ''user'', ''home'']) # rest) \<and>
   cli_main ok_backend 1000 home_extensions dry_run_args =
     ([Print (ActiveExtensionsLine [''basic'', ''user'', ''home'']),
       Validate ''basic'', Validate ''user'', Validate ''home'',
       Print DryRunLine, Print (ImageLine (PyStr ''ubuntu:20.04'')),
       Print (CommandLine ''echo test''), Print OrderHeaderLine,
       Print (OrderItemLine 1 ''basic''), Print (OrderItemLine 2 ''user''),
       Print (OrderItemLine 3 ''home'')], Inr 0) \<and>
   main_py_main ok_backend 1000 home_extensions dry_run_args =
     ([Print (ActiveExtensionsLine [''basic'', ''user'', ''home'']),
       Validate ''basic'', Validate ''user'', Validate ''home'',
       Print DryRunLine, Print (ImageLine (PyStr ''ubuntu:20.04'')),
       Print (CommandLine ''echo test'')], Inr 0)"
proof -
  have d: "truthy (args_get dry_run_args ''dry_run'')"
    by (simp add: args_get_def dry_run_args_def)
  from dry_run_only_reports [OF d, of ok_backend 1000 home_extensions] dry_run_get_active
  have 1: "\<exists>tr r rest. cli_main ok_backend 1000 home_extensions dry_run_args = (tr, r) \<and>
       tr = Print (ActiveExtensionsLine [''basic'', ''user'', ''home'']) # rest"
    by (auto simp: BasicExtension_def MockExtension_def)
  have 2: "cli_main ok_backend 1000 home_extensions dry_run_args =
     ([Print (ActiveExtensionsLine [''basic'', ''user'', ''home'']),
       Validate ''basic'', Validate ''user'', Validate ''home'',
       Print DryRunLine, Print (ImageLine (PyStr ''ubuntu:20.04'')),
       Print (CommandLine ''echo test''), Print OrderHeaderLine,
       Print (OrderItemLine 1 ''basic''), Print (OrderItemLine 2 ''user''),
       Print (OrderItemLine 3 ''home'')], Inr 0)"
    unfolding cli_main_def Let_def dry_run_get_active
    by (simp add: cli_dry_run_def print_image_and_command_def then_do_Inr then_do_Inl
        BasicExtension_def MockExtension_def args_get_def dry_run_args_def)
  have 3: "main_py_main ok_backend 1000 home_extensions dry_run_args =
     ([Print (ActiveExtensionsLine [''basic'', ''user'', ''home'']),
       Validate ''basic'', Validate ''user'', Validate ''home'',
       Print DryRunLine, Print (ImageLine (PyStr ''ubuntu:20.04'')),
       Print (CommandLine ''echo test'')], Inr 0)"
    unfolding main_py_main_def Let_def dry_run_get_active
    by (simp add: main_py_dry_run_def print_image_and_command_def then_do_Inr then_do_Inl
        BasicExtension_def MockExtension_def args_get_def dry_run_args_def)
  from d 1 2 3 show ?thesis by blast
qed

text \<open>
  C6, as stated, fails for \<open>run\<close>: with an empty command list it executes
  \<open>/bin/bash -c "echo 'No command specified'"\<close>, which is not the shell \<open>/bin/bash\<close>.
\<close>

theorem default_command_counterexample:
  "run ok_backend 1000 (register_all [BasicExtension]) no_command_args =
     ([Validate ''basic'', Connect, FromImage (PyStr ''ubuntu:20.04''),
            SetupContainer ''basic'',
            WithExec (PyList [''/bin/bash'', ''-c'', ''echo 'No command specified'' @ [CHR 0x27]]),
            Stdout, Disconnect], Inr ''out'') \<and>
   PyList [''/bin/bash'', ''-c'', ''echo 'No command specified'' @ [CHR 0x27]] \<noteq>
     PyList [''/bin/bash'']"
  unfolding run_def no_command_get_active
  by (simp add: run_container_def with_connection_def base_container_def exec_stdout_def
      then_do_Inr then_do_Inl ok_backend_def BasicExtension_def no_command_args_def
      args_get_def echo_no_command_def)

text \<open>
  C6, amended: when no command token is supplied, and the pipeline gets as far as the final
  container, \<open>build_and_run\<close> executes the shell \<open>/bin/bash\<close> on that container, and
  \<open>run\<close> executes \<open>/bin/bash -c "echo 'No command specified'"\<close> on it and returns its
  standard output.
\<close>

theorem default_command:
  assumes "\<not> truthy (args_get a ''command'')" and "connect B = None"
    and "a ''image'' = Some img" and "from_image B img = Inr c0"
    and "apply_extensions active c0 a = (tr, Inr c)"
  shows "(\<forall>c'. with_exec B c bash_shell = Inr c' \<longrightarrow>
            build_and_run B active a =
              (Connect # FromImage img # tr @ [WithExec bash_shell, Sync, Disconnect],
               sync B c')) \<and>
         (\<forall>c' trv. with_exec B c echo_no_command = Inr c' \<and>
            get_active_extensions depth extensions a = Inr active \<and>
            validate_all active a = (trv, Inr ()) \<longrightarrow>
            run B depth extensions a =
              (trv @ Connect # FromImage img # tr @
                 [WithExec echo_no_command, Stdout, Disconnect],
               stdout B c'))"
  using assms
  by (simp add: build_and_run_def run_def run_container_def with_connection_def
      base_container_def exec_sync_def exec_stdout_def then_do_Inr then_do_Inl)

theorem default_command_witness:
  "\<not> truthy (args_get no_command_args ''command'') \<and>
   connect ok_backend = None \<and>
   no_command_args ''image'' = Some (PyStr ''ubuntu:20.04'') \<and>
   from_image ok_backend (PyStr ''ubuntu:20.04'') = Inr [''from''] \<and>
   apply_extensions [BasicExtension] [''from''] no_command_args =
     ([SetupContainer ''basic''], Inr [''from'']) \<and>
   with_exec ok_backend [''from''] bash_shell = Inr [''from'', ''exec''] \<and>
   build_and_run ok_backend [BasicExtension] no_command_args =
     ([Connect, FromImage (PyStr ''ubuntu:20.04''), SetupContainer ''basic'',
       WithExec bash_shell, Sync, Disconnect], Inr [''from'', ''exec'']) \<and>
   with_exec ok_backend [''from''] echo_no_command = Inr [''from'', ''exec''] \<and>
   get_active_extensions 1000 (register_all [BasicExtension :: string list extension])
       no_command_args = Inr [BasicExtension] \<and>
   validate_all [BasicExtension :: string list extension] no_command_args =
     ([Validate ''basic''], Inr ()) \<and>
   run ok_backend 1000 (register_all [BasicExtension]) no_command_args =
     ([Validate ''basic'', Connect, FromImage (PyStr ''ubuntu:20.04''),
            SetupContainer ''basic'', WithExec echo_no_command, Stdout, Disconnect],
           Inr ''out'')"
proof -
  have 1: "\<not> truthy (args_get no_command_args ''command'')"
    by (simp add: args_get_def no_command_args_def)
  have 2: "connect ok_backend = None" by (simp add: ok_backend_def)
  have 3: "no_command_args ''image'' = Some (PyStr ''ubuntu:20.04'')"
    by (simp add: no_command_args_def)
  have 4: "from_image ok_backend (PyStr ''ubuntu:20.04'') = Inr [''from'']"
    by (simp add: ok_backend_def)
  have 5: "apply_extensions [BasicExtension] [''from''] no_command_args =
     ([SetupContainer ''basic''], Inr [''from''])"
    by (simp add: BasicExtension_def then_do_Inr)
  have 6: "with_exec ok_backend [''from''] bash_shell = Inr [''from'', ''exec'']"
    by (simp add: ok_backend_def)
  have 8: "with_exec ok_backend [''from''] echo_no_command = Inr [''from'', ''exec'']"
    by (simp add: ok_backend_def)
  have 9: "validate_all [BasicExtension :: string list extension] no_command_args =
     ([Validate ''basic''], Inr ())"
    by (simp add: BasicExtension_def then_do_Inr)
  note dc = default_command [OF 1 2 3 4 5, where depth = 1000
      and extensions = "register_all [BasicExtension]"]
  from dc 6
  have "build_and_run ok_backend [BasicExtension] no_command_args =
     (Connect # FromImage (PyStr ''ubuntu:20.04'') # [SetupContainer ''basic''] @
        [WithExec bash_shell, Sync, Disconnect],
      sync ok_backend [''from'', ''exec''])"
    by blast
  then have 7: "build_and_run ok_backend [BasicExtension] no_command_args =
     ([Connect, FromImage (PyStr ''ubuntu:20.04''), SetupContainer ''basic'',
       WithExec bash_shell, Sync, Disconnect], Inr [''from'', ''exec''])"
    by (simp add: ok_backend_def)
  from dc 8 no_command_get_active 9
  have "run ok_backend 1000 (register_all [BasicExtension]) no_command_args =
     ([Validate ''basic''] @ Connect # FromImage (PyStr ''ubuntu:20.04'') #
             [SetupContainer ''basic''] @ [WithExec echo_no_command, Stdout, Disconnect],
           stdout ok_backend [''from'', ''exec''])"
    by blast
  then have 10: "run ok_backend 1000 (register_all [BasicExtension]) no_command_args =
     ([Validate ''basic'', Connect, FromImage (PyStr ''ubuntu:20.04''),
            SetupContainer ''basic'', WithExec echo_no_command, Stdout, Disconnect],
           Inr ''out'')"
    by (simp add: ok_backend_def)
  from 1 2 3 4 5 6 7 8 no_command_get_active 9 10 show ?thesis by blast
qed

end
